theory Spec2Isabelle
  imports Main "HOL-Library.Word"
begin

section \<open>Data model of pathfinder.c\<close>

text \<open>
  A C \<open>int\<close> is a 32-bit two's complement word: \<open>+\<close> and \<open>-\<close> wrap around, and the
  comparisons of the code are comparisons of the signed readings (\<open>sint\<close>).
  Vertex numbers, array indices, lengths and counters are natural numbers.
\<close>

type_synonym c_int = "32 word"

definition INT_MAX :: c_int where
  "INT_MAX = 2147483647"

record t_coords =
  c_from :: nat
  c_to :: nat

record t_graph =
  graph_size :: nat
  matrix :: "c_int list list"

text \<open>\<open>nodes\<close> is the linked list \<open>data->nodes\<close>, read as the list of the node ids.\<close>

record t_data =
  graph :: t_graph
  nodes :: "nat list"

record t_path_info =
  visited :: "c_int list"
  path :: "nat list"
  path_index :: nat
  weight :: c_int

record t_path =
  vertices :: "nat list"
  len :: nat

record t_path_list =
  paths :: "t_path list"
  count :: nat
  min_len :: c_int

text \<open>
  The functions of the file mutate the two objects \<open>path_info\<close> and \<open>all_paths\<close> they are
  handed, call \<open>mx_realloc\<close> and write to \<open>stderr\<close>. The state that is passed along holds
  the two objects, the number of \<open>mx_realloc\<close> calls made so far, and the lines written to
  \<open>stderr\<close>.

  \<open>mx_realloc\<close> is not part of the file. It enters as the parameter \<open>mx_realloc_ok\<close>:
  \<open>mx_realloc_ok k\<close> tells whether the call number \<open>k\<close> returns a block (that keeps the old
  entries, as \<open>realloc\<close> does) or \<open>NULL\<close>. The macro \<open>INIT\<close> of \<open>pathfinder.h\<close> is a parameter
  too. The unchecked \<open>malloc\<close> and \<open>calloc\<close> calls are taken to return a block, and
  releasing memory (\<open>free\<close>, \<open>free_path_info\<close>, \<open>free_paths\<close>) leaves no trace in the state.
\<close>

record machine =
  path_info :: t_path_info
  all_paths :: t_path_list
  realloc_calls :: nat
  stderr :: "string list"

section \<open>The functions\<close>

text \<open>\<open>malloc\<close> leaves the path buffer uninitialised; \<open>uninit\<close> stands for what it holds.\<close>

definition create_path_info :: "nat list \<Rightarrow> nat \<Rightarrow> t_path_info" where
  "create_path_info uninit num_vertices =
     \<lparr>visited = replicate num_vertices 0,
      path = map (\<lambda>i. if i < length uninit then uninit ! i else 0) [0..<num_vertices],
      path_index = 0,
      weight = 0\<rparr>"

definition create_paths :: t_path_list where
  "create_paths = \<lparr>paths = [], count = 0, min_len = INT_MAX\<rparr>"

definition add_path :: "(nat \<Rightarrow> bool) \<Rightarrow> nat list \<Rightarrow> nat \<Rightarrow> machine \<Rightarrow> machine" where
  "add_path mx_realloc_ok current_path length' m =
     (let m1 = m\<lparr>realloc_calls := realloc_calls m + 1\<rparr> in
      if \<not> mx_realloc_ok (realloc_calls m)
      then m1\<lparr>stderr := stderr m @ [''error: memory allocation failed in add_path'']\<rparr>
      else
        let ap = all_paths m;
            new = \<lparr>vertices = map (\<lambda>i. current_path ! i) [0..<length'], len = length'\<rparr>
        in m1\<lparr>all_paths := ap\<lparr>paths := take (count ap) (paths ap) @ [new],
                                 count := count ap + 1\<rparr>\<rparr>)"

definition reached_destination :: "(nat \<Rightarrow> bool) \<Rightarrow> machine \<Rightarrow> machine" where
  "reached_destination mx_realloc_ok m =
     (let m1 = (if sint (weight (path_info m)) < sint (min_len (all_paths m))
                then m\<lparr>all_paths := (all_paths m)\<lparr>paths := [], count := 0,
                                                  min_len := weight (path_info m)\<rparr>\<rparr>
                else m)
      in if weight (path_info m1) = min_len (all_paths m1)
         then add_path mx_realloc_ok (path (path_info m1)) (path_index (path_info m1)) m1
         else m1)"

text \<open>
  The steps of \<open>find_all_from_to\<close> and \<open>explore_neighbors\<close> on the state: \<open>enter_vertex\<close> is
  \<open>visited[from] = 1; path[path_index++] = from\<close>, \<open>leave_vertex\<close> is
  \<open>path_index--; visited[from] = 0\<close>, \<open>add_weight\<close> and \<open>sub_weight\<close> are \<open>weight += w\<close> and
  \<open>weight -= w\<close>, and \<open>may_extend\<close> is the condition of the \<open>if\<close> in the neighbour loop.
\<close>

definition enter_vertex :: "nat \<Rightarrow> machine \<Rightarrow> machine" where
  "enter_vertex v m =
     m\<lparr>path_info := (path_info m)
         \<lparr>visited := (visited (path_info m))[v := 1],
          path := (path (path_info m))[path_index (path_info m) := v],
          path_index := path_index (path_info m) + 1\<rparr>\<rparr>"

definition leave_vertex :: "nat \<Rightarrow> machine \<Rightarrow> machine" where
  "leave_vertex v m =
     m\<lparr>path_info := (path_info m)
         \<lparr>path_index := path_index (path_info m) - 1,
          visited := (visited (path_info m))[v := 0]\<rparr>\<rparr>"

definition add_weight :: "c_int \<Rightarrow> machine \<Rightarrow> machine" where
  "add_weight w m = m\<lparr>path_info := (path_info m)\<lparr>weight := weight (path_info m) + w\<rparr>\<rparr>"

definition sub_weight :: "c_int \<Rightarrow> machine \<Rightarrow> machine" where
  "sub_weight w m = m\<lparr>path_info := (path_info m)\<lparr>weight := weight (path_info m) - w\<rparr>\<rparr>"

definition may_extend :: "c_int \<Rightarrow> t_data \<Rightarrow> nat \<Rightarrow> nat \<Rightarrow> machine \<Rightarrow> bool" where
  "may_extend INIT data from i m =
     (let weight' = matrix (graph data) ! from ! i in
      weight' \<noteq> INIT \<and> visited (path_info m) ! i = 0 \<and>
      sint (weight (path_info m) + weight') \<le> sint (min_len (all_paths m)))"

text \<open>
  The recursion of \<open>find_all_from_to\<close> through \<open>explore_neighbors\<close> carries a bound on its
  depth: \<open>find_all_from_to\<close> with bound \<open>Suc d\<close> lets the calls it makes nest \<open>d\<close> deep, and
  the result is \<open>None\<close> when the bound is reached. \<open>explore_loop\<close> is the \<open>for\<close> loop of
  \<open>explore_neighbors\<close>, from index \<open>i\<close> up to \<open>n\<close>. A list is read and written only within
  its length in a search that starts on fresh objects at a vertex of the graph (lemma
  \<open>nested_call_in_bounds\<close>); the matrix is read at indices below \<open>graph_size\<close> only.
\<close>

function find_all_from_to ::
    "(nat \<Rightarrow> bool) \<Rightarrow> c_int \<Rightarrow> nat \<Rightarrow> t_coords \<Rightarrow> t_data \<Rightarrow> machine \<Rightarrow> machine option"
  and explore_neighbors ::
    "(nat \<Rightarrow> bool) \<Rightarrow> c_int \<Rightarrow> nat \<Rightarrow> t_coords \<Rightarrow> t_data \<Rightarrow> machine \<Rightarrow> machine option"
  and explore_loop ::
    "(nat \<Rightarrow> bool) \<Rightarrow> c_int \<Rightarrow> nat \<Rightarrow> t_coords \<Rightarrow> t_data \<Rightarrow> nat \<Rightarrow> nat \<Rightarrow> machine
      \<Rightarrow> machine option"
where
  "find_all_from_to mx_realloc_ok INIT 0 cords data m = None"
| "find_all_from_to mx_realloc_ok INIT (Suc d) cords data m =
     (let m1 = enter_vertex (c_from cords) m in
      case (if c_from cords = c_to cords
            then Some (reached_destination mx_realloc_ok m1)
            else explore_neighbors mx_realloc_ok INIT d cords data m1) of
        None \<Rightarrow> None
      | Some m2 \<Rightarrow> Some (leave_vertex (c_from cords) m2))"
| "explore_neighbors mx_realloc_ok INIT d cords data m =
     explore_loop mx_realloc_ok INIT d cords data (graph_size (graph data)) 0 m"
| "explore_loop mx_realloc_ok INIT d cords data n i m =
     (if i < n then
        (if may_extend INIT data (c_from cords) i m then
           (case find_all_from_to mx_realloc_ok INIT d \<lparr>c_from = i, c_to = c_to cords\<rparr> data
                   (add_weight (matrix (graph data) ! c_from cords ! i) m) of
              None \<Rightarrow> None
            | Some m' \<Rightarrow>
                explore_loop mx_realloc_ok INIT d cords data n (i + 1)
                  (sub_weight (matrix (graph data) ! c_from cords ! i) m'))
         else explore_loop mx_realloc_ok INIT d cords data n (i + 1) m)
      else Some m)"
  by pat_completeness auto
termination
  by (relation "inv_image (less_than <*lex*> less_than <*lex*> less_than)
        (\<lambda>x. case x of
           Inl (ok, I, d, c, g, m) \<Rightarrow> (d, 0::nat, 0::nat)
         | Inr (Inl (ok, I, d, c, g, m)) \<Rightarrow> (d, 2, 0)
         | Inr (Inr (ok, I, d, c, g, n, i, m)) \<Rightarrow> (d, 1, n - i))") auto

declare explore_loop.simps [simp del]

section \<open>The outer loops\<close>

text \<open>
  \<open>find_all_from\<close> and \<open>execute_pathfinding\<close> walk the linked list of nodes. A list cell is
  given by the id of its node and the ids of the nodes after it. \<open>display_paths\<close> is not
  part of the file: what is kept of each round is the pair of coordinates with which
  \<open>find_all_from_to\<close> was called and the \<open>all_paths\<close> that was handed to \<open>display_paths\<close>.
  The calls of \<open>mx_realloc\<close> and the lines on \<open>stderr\<close> run on from one search to the next.
\<close>

record program =
  p_realloc_calls :: nat
  p_stderr :: "string list"
  searches :: "(t_coords \<times> t_path_list) list"

fun find_all_from_loop ::
    "(nat \<Rightarrow> bool) \<Rightarrow> c_int \<Rightarrow> nat \<Rightarrow> nat list \<Rightarrow> nat \<Rightarrow> nat list \<Rightarrow> t_data \<Rightarrow> program
      \<Rightarrow> program option" where
  "find_all_from_loop mx_realloc_ok INIT d uninit start_id [] data w = Some w"
| "find_all_from_loop mx_realloc_ok INIT d uninit start_id (copy_id # copy_next) data w =
     (let path_info' = create_path_info uninit (graph_size (graph data));
          all_paths' = create_paths;
          cords = \<lparr>c_from = start_id, c_to = copy_id\<rparr>
      in case find_all_from_to mx_realloc_ok INIT d cords data
                \<lparr>path_info = path_info', all_paths = all_paths',
                 realloc_calls = p_realloc_calls w, stderr = p_stderr w\<rparr> of
           None \<Rightarrow> None
         | Some m' \<Rightarrow>
             find_all_from_loop mx_realloc_ok INIT d uninit start_id copy_next data
               (w\<lparr>p_realloc_calls := realloc_calls m', p_stderr := stderr m',
                  searches := searches w @ [(cords, all_paths m')]\<rparr>))"

definition find_all_from ::
    "(nat \<Rightarrow> bool) \<Rightarrow> c_int \<Rightarrow> nat \<Rightarrow> nat list \<Rightarrow> nat \<Rightarrow> nat list \<Rightarrow> t_data \<Rightarrow> program
      \<Rightarrow> program option" where
  "find_all_from mx_realloc_ok INIT d uninit start_id start_next data w =
     find_all_from_loop mx_realloc_ok INIT d uninit start_id start_next data w"

fun execute_loop ::
    "(nat \<Rightarrow> bool) \<Rightarrow> c_int \<Rightarrow> nat \<Rightarrow> nat list \<Rightarrow> nat list \<Rightarrow> t_data \<Rightarrow> program
      \<Rightarrow> program option" where
  "execute_loop mx_realloc_ok INIT d uninit [] data w = Some w"
| "execute_loop mx_realloc_ok INIT d uninit (current_id # current_next) data w =
     (case find_all_from mx_realloc_ok INIT d uninit current_id current_next data w of
        None \<Rightarrow> None
      | Some w' \<Rightarrow> execute_loop mx_realloc_ok INIT d uninit current_next data w')"

definition execute_pathfinding ::
    "(nat \<Rightarrow> bool) \<Rightarrow> c_int \<Rightarrow> nat \<Rightarrow> nat list \<Rightarrow> t_data \<Rightarrow> program \<Rightarrow> program option" where
  "execute_pathfinding mx_realloc_ok INIT d uninit data w =
     execute_loop mx_realloc_ok INIT d uninit (nodes data) data w"

section \<open>Notions used to state the properties\<close>

text \<open>The state in which \<open>find_all_from\<close> calls \<open>find_all_from_to\<close>: both objects just
  created, after \<open>k\<close> earlier calls of \<open>mx_realloc\<close> and with \<open>e\<close> on \<open>stderr\<close>.\<close>

definition fresh_machine :: "nat list \<Rightarrow> nat \<Rightarrow> nat \<Rightarrow> string list \<Rightarrow> machine" where
  "fresh_machine uninit num_vertices k e =
     \<lparr>path_info = create_path_info uninit num_vertices, all_paths = create_paths,
      realloc_calls = k, stderr = e\<rparr>"

text \<open>
  The path under construction is \<open>path[0..path_index)\<close>. \<open>tracking_ok\<close> says that the two
  arrays have one cell for each vertex, that the path consists of distinct vertices of the
  graph, and that \<open>visited\<close> is \<open>1\<close> on them and \<open>0\<close> elsewhere. \<open>state_ok\<close> adds that \<open>weight\<close>
  is the weight of the path; \<open>entry_ok v\<close> is the state in which \<open>find_all_from_to\<close> is
  called at \<open>v\<close>: the weight of the edge to \<open>v\<close> has been added, \<open>v\<close> has not been entered.
  \<open>stored_ok\<close> is the invariant of the result list, and \<open>restored m m'\<close> says that \<open>m'\<close> has
  the \<open>visited\<close>, \<open>path_index\<close>, \<open>weight\<close> and path of \<open>m\<close>.
\<close>

definition current_path :: "machine \<Rightarrow> nat list" where
  "current_path m = take (path_index (path_info m)) (path (path_info m))"

fun path_weight :: "t_data \<Rightarrow> nat list \<Rightarrow> c_int" where
  "path_weight data (u # v # vs) = matrix (graph data) ! u ! v + path_weight data (v # vs)"
| "path_weight data vs = 0"

definition tracking_ok :: "t_data \<Rightarrow> machine \<Rightarrow> bool" where
  "tracking_ok data m =
     (length (visited (path_info m)) = graph_size (graph data) \<and>
      length (path (path_info m)) = graph_size (graph data) \<and>
      path_index (path_info m) \<le> graph_size (graph data) \<and>
      distinct (current_path m) \<and>
      (\<forall>v \<in> set (current_path m). v < graph_size (graph data)) \<and>
      (\<forall>v < graph_size (graph data).
         visited (path_info m) ! v = (if v \<in> set (current_path m) then 1 else 0)))"

definition state_ok :: "t_data \<Rightarrow> machine \<Rightarrow> bool" where
  "state_ok data m =
     (tracking_ok data m \<and> weight (path_info m) = path_weight data (current_path m))"

definition entry_ok :: "t_data \<Rightarrow> nat \<Rightarrow> machine \<Rightarrow> bool" where
  "entry_ok data v m =
     (tracking_ok data m \<and> v < graph_size (graph data) \<and> v \<notin> set (current_path m) \<and>
      weight (path_info m) = path_weight data (current_path m @ [v]))"

definition stored_ok :: "t_data \<Rightarrow> machine \<Rightarrow> bool" where
  "stored_ok data m =
     (count (all_paths m) = length (paths (all_paths m)) \<and>
      (\<forall>p \<in> set (paths (all_paths m)).
          len p = length (vertices p) \<and>
          path_weight data (vertices p) = min_len (all_paths m)))"

definition restored :: "machine \<Rightarrow> machine \<Rightarrow> bool" where
  "restored m m' =
     (visited (path_info m') = visited (path_info m) \<and>
      path_index (path_info m') = path_index (path_info m) \<and>
      weight (path_info m') = weight (path_info m) \<and>
      length (path (path_info m')) = length (path (path_info m)) \<and>
      current_path m' = current_path m)"

text \<open>The entry that \<open>add_path\<close> stores for the path held in the buffer.\<close>

definition stored_copy :: "machine \<Rightarrow> t_path" where
  "stored_copy m = \<lparr>vertices = current_path m, len = path_index (path_info m)\<rparr>"

text \<open>
  The weight of a vertex sequence: \<open>path_weight\<close> (above) adds the matrix entries between
  consecutive vertices as the code adds them, in 32-bit arithmetic with wrap-around;
  \<open>total_weight\<close> adds their signed values as integers, and is the exact sum. The first is
  the second reduced to 32 bits (lemma \<open>sint_path_weight_wraps\<close>), so the two agree exactly
  when the exact sum fits in an \<open>int\<close> (lemma \<open>sint_path_weight_exact\<close>).
\<close>

fun total_weight :: "t_data \<Rightarrow> nat list \<Rightarrow> int" where
  "total_weight data (u # v # vs) = sint (matrix (graph data) ! u ! v) + total_weight data (v # vs)"
| "total_weight data vs = 0"

fun nonneg_along :: "t_data \<Rightarrow> nat list \<Rightarrow> bool" where
  "nonneg_along data (u # v # vs) = (0 \<le> sint (matrix (graph data) ! u ! v) \<and> nonneg_along data (v # vs))"
| "nonneg_along data vs = True"



definition stored_weights_ok :: "t_data \<Rightarrow> machine \<Rightarrow> bool" where
  "stored_weights_ok data m =
     (\<forall>p \<in> set (paths (all_paths m)).
        path_weight data (vertices p) = min_len (all_paths m) \<and>
        (total_weight data (vertices p) = sint (min_len (all_paths m))) =
          (- 2147483648 \<le> total_weight data (vertices p) \<and>
           total_weight data (vertices p) \<le> 2147483647))"

text \<open>
  The calls of \<open>find_all_from_to\<close> that a call makes, directly or through further calls.
  A triple \<open>(d, v, m)\<close> stands for the call with depth bound \<open>d\<close> at vertex \<open>v\<close> in state
  \<open>m\<close>. The state at the head of iteration \<open>i\<close> of the neighbour loop is what the loop run
  from \<open>0\<close> up to \<open>i\<close> returns (lemma \<open>explore_loop_split\<close>).
\<close>

inductive nested_call ::
    "(nat \<Rightarrow> bool) \<Rightarrow> c_int \<Rightarrow> t_data \<Rightarrow> nat \<Rightarrow> nat \<times> nat \<times> machine \<Rightarrow> nat \<times> nat \<times> machine \<Rightarrow> bool"
  for mx_realloc_ok INIT data target
where
  outermost: "nested_call mx_realloc_ok INIT data target c c"
| inner:
    "nested_call mx_realloc_ok INIT data target c (Suc d, v, m) \<Longrightarrow>
     v \<noteq> target \<Longrightarrow> i < graph_size (graph data) \<Longrightarrow>
     explore_loop mx_realloc_ok INIT d \<lparr>c_from = v, c_to = target\<rparr> data i 0 (enter_vertex v m)
       = Some mi \<Longrightarrow>
     may_extend INIT data v i mi \<Longrightarrow>
     nested_call mx_realloc_ok INIT data target c
       (d, i, add_weight (matrix (graph data) ! v ! i) mi)"

text \<open>The pairs of a node list in which the target comes after the start, in list order.\<close>

fun later_pairs :: "nat list \<Rightarrow> t_coords list" where
  "later_pairs [] = []"
| "later_pairs (x # xs) = map (\<lambda>y. \<lparr>c_from = x, c_to = y\<rparr>) xs @ later_pairs xs"



text \<open>
  Graph notions. There is an edge from \<open>u\<close> to \<open>v\<close> when the matrix entry is not \<open>INIT\<close>. A
  simple path from \<open>s\<close> to \<open>t\<close> is a non-empty sequence of distinct vertices of the graph,
  from \<open>s\<close> to \<open>t\<close>, with an edge between consecutive vertices; its weight is
  \<open>total_weight\<close>, the integer sum. \<open>no_overflow\<close> says that no simple path from \<open>s\<close> weighs
  more than \<open>INT_MAX\<close>.
\<close>

fun is_walk :: "c_int \<Rightarrow> t_data \<Rightarrow> nat list \<Rightarrow> bool" where
  "is_walk INIT data (u # v # vs) =
     (matrix (graph data) ! u ! v \<noteq> INIT \<and> is_walk INIT data (v # vs))"
| "is_walk INIT data vs = True"

definition simple_path :: "c_int \<Rightarrow> t_data \<Rightarrow> nat \<Rightarrow> nat \<Rightarrow> nat list \<Rightarrow> bool" where
  "simple_path INIT data s t p =
     (p \<noteq> [] \<and> hd p = s \<and> last p = t \<and> distinct p \<and>
      (\<forall>v \<in> set p. v < graph_size (graph data)) \<and> is_walk INIT data p)"

definition nonneg_weights :: "c_int \<Rightarrow> t_data \<Rightarrow> bool" where
  "nonneg_weights INIT data =
     (\<forall>u < graph_size (graph data). \<forall>v < graph_size (graph data).
        matrix (graph data) ! u ! v \<noteq> INIT \<longrightarrow> 0 \<le> sint (matrix (graph data) ! u ! v))"

definition no_overflow :: "c_int \<Rightarrow> t_data \<Rightarrow> nat \<Rightarrow> bool" where
  "no_overflow INIT data s =
     (\<forall>t p. simple_path INIT data s t p \<longrightarrow> total_weight data p \<le> 2147483647)"

definition shortest_path :: "c_int \<Rightarrow> t_data \<Rightarrow> nat \<Rightarrow> nat \<Rightarrow> nat list \<Rightarrow> bool" where
  "shortest_path INIT data s t p =
     (simple_path INIT data s t p \<and>
      (\<forall>q. simple_path INIT data s t q \<longrightarrow> total_weight data p \<le> total_weight data q))"

text \<open>
  The yardstick for the search: \<open>dfs_paths\<close> lists, in the order of the neighbour loop and
  with no pruning, the simple paths that extend \<open>pre @ [v]\<close> to the target; \<open>record_path\<close>
  is the record operation on a path and its weight; \<open>recorded L ap\<close> says that \<open>ap\<close> holds
  the lightest paths of \<open>L\<close> and their weight.
\<close>

fun dfs_paths :: "c_int \<Rightarrow> t_data \<Rightarrow> nat \<Rightarrow> nat list \<Rightarrow> nat \<Rightarrow> nat \<Rightarrow> nat list list" where
  "dfs_paths INIT data 0 pre v t = []"
| "dfs_paths INIT data (Suc d) pre v t =
     (if v = t then [pre @ [v]]
      else concat (map (\<lambda>i. if matrix (graph data) ! v ! i \<noteq> INIT \<and> i \<notin> set (pre @ [v])
                             then dfs_paths INIT data d (pre @ [v]) i t else [])
                       [0..<graph_size (graph data)]))"

definition record_path :: "t_data \<Rightarrow> t_path_list \<Rightarrow> nat list \<Rightarrow> t_path_list" where
  "record_path data ap p =
     (if sint (path_weight data p) < sint (min_len ap)
      then \<lparr>paths = [\<lparr>vertices = p, len = length p\<rparr>], count = 1, min_len = path_weight data p\<rparr>
      else if path_weight data p = min_len ap
      then ap\<lparr>paths := paths ap @ [\<lparr>vertices = p, len = length p\<rparr>], count := count ap + 1\<rparr>
      else ap)"

definition recorded :: "t_data \<Rightarrow> nat list list \<Rightarrow> t_path_list \<Rightarrow> bool" where
  "recorded data L ap =
     ((\<forall>q \<in> set L. sint (min_len ap) \<le> total_weight data q) \<and>
      map vertices (paths ap) = filter (\<lambda>p. total_weight data p = sint (min_len ap)) L \<and>
      (L = [] \<longrightarrow> ap = create_paths) \<and>
      (L \<noteq> [] \<longrightarrow> (\<exists>p \<in> set L. total_weight data p = sint (min_len ap))) \<and>
      count ap = length (paths ap) \<and>
      (\<forall>e \<in> set (paths ap). len e = length (vertices e)))"

definition branch_paths :: "c_int \<Rightarrow> t_data \<Rightarrow> nat \<Rightarrow> nat list \<Rightarrow> nat \<Rightarrow> nat \<Rightarrow> nat list list" where
  "branch_paths INIT data d P t j =
     (if matrix (graph data) ! last P ! j \<noteq> INIT \<and> j \<notin> set P
      then dfs_paths INIT data d P j t else [])"

section \<open>Example graphs\<close>

definition line_graph :: t_data where
  "line_graph = \<lparr>graph = \<lparr>graph_size = 3, matrix = [[7, 1, 5], [1, 7, 1], [5, 1, 7]]\<rparr>,
                 nodes = [0, 1, 2]\<rparr>"

definition tie_state :: machine where
  "tie_state =
     \<lparr>path_info = \<lparr>visited = [1, 0, 1], path = [0, 2, 0], path_index = 2, weight = 5\<rparr>,
      all_paths = \<lparr>paths = [\<lparr>vertices = [0, 1, 2], len = 3\<rparr>], count = 1, min_len = 5\<rparr>,
      realloc_calls = 1, stderr = []\<rparr>"

definition loop_graph :: t_data where
  "loop_graph = \<lparr>graph = \<lparr>graph_size = 2, matrix = [[3, 1], [1, 4]]\<rparr>, nodes = [0, 1]\<rparr>"

definition at_source :: machine where
  "at_source = enter_vertex 0 (fresh_machine [] 3 0 [])"

definition after_first_edge :: machine where
  "after_first_edge = add_weight 1 at_source"


definition two_nodes :: t_data where
  "two_nodes = \<lparr>graph = \<lparr>graph_size = 2, matrix = [[9, 1], [1, 9]]\<rparr>, nodes = [0, 1]\<rparr>"

definition program_start :: program where
  "program_start = \<lparr>p_realloc_calls = 0, p_stderr = [], searches = []\<rparr>"

definition overflow_graph :: t_data where
  "overflow_graph =
     \<lparr>graph = \<lparr>graph_size = 3,
                matrix = [[9, 1073741824, 5], [9, 9, 1073741824], [9, 9, 9]]\<rparr>,
      nodes = [0, 1, 2]\<rparr>"




text \<open>
  A graph with \<open>INIT = -1\<close>: two edges of weight \<open>INT_MAX\<close> and one of weight \<open>7\<close> lead from \<open>0\<close>
  to \<open>3\<close> through \<open>1\<close> and \<open>2\<close>, and one edge of weight \<open>5\<close> leads there directly.
\<close>

definition mixed_graph :: t_data where
  "mixed_graph =
     \<lparr>graph = \<lparr>graph_size = 4,
                matrix = [[- 1, 2147483647, - 1, 5], [- 1, - 1, 2147483647, - 1],
                          [- 1, - 1, - 1, 7], [- 1, - 1, - 1, - 1]]\<rparr>,
      nodes = [0, 1, 2, 3]\<rparr>"

section \<open>Entering and leaving a vertex\<close>

lemma path_weight_snoc:
  "vs \<noteq> [] \<Longrightarrow> path_weight data (vs @ [v]) = path_weight data vs + matrix (graph data) ! last vs ! v"
  by (induction data vs rule: path_weight.induct) auto

lemma restored_refl: "restored m m"
  by (simp add: restored_def)

lemma restored_trans: "restored a b \<Longrightarrow> restored b c \<Longrightarrow> restored a c"
  by (simp add: restored_def)

lemma length_current_path:
  "tracking_ok data m \<Longrightarrow> length (current_path m) = path_index (path_info m)"
  by (simp add: tracking_ok_def current_path_def)

lemma entry_index_less:
  assumes "entry_ok data v m"
  shows "path_index (path_info m) < graph_size (graph data)"
proof -
  let ?V = "graph_size (graph data)"
  have t: "tracking_ok data m" and v: "v < ?V" "v \<notin> set (current_path m)"
    using assms by (simp_all add: entry_ok_def)
  have "set (current_path m) \<subseteq> {..<?V} - {v}"
    using t v by (auto simp: tracking_ok_def)
  then have "card (set (current_path m)) \<le> card ({..<?V} - {v})"
    by (intro card_mono) auto
  moreover have "card (set (current_path m)) = length (current_path m)"
    using t by (simp add: tracking_ok_def distinct_card)
  moreover have "card ({..<?V} - {v}) = ?V - 1"
    using v by simp
  ultimately show ?thesis
    using v length_current_path[OF t] by simp
qed

lemma current_path_enter:
  "path_index (path_info m) < length (path (path_info m)) \<Longrightarrow>
   current_path (enter_vertex v m) = current_path m @ [v]"
  by (simp add: current_path_def enter_vertex_def take_Suc_conv_app_nth)

lemma enter_state_ok:
  assumes "entry_ok data v m"
  shows "state_ok data (enter_vertex v m)"
proof -
  have lt: "path_index (path_info m) < graph_size (graph data)"
    by (rule entry_index_less[OF assms])
  have t: "tracking_ok data m" using assms by (simp add: entry_ok_def)
  then have len: "length (path (path_info m)) = graph_size (graph data)"
    by (simp add: tracking_ok_def)
  have cp: "current_path (enter_vertex v m) = current_path m @ [v]"
    using lt len by (simp add: current_path_enter)
  have "tracking_ok data (enter_vertex v m)"
    unfolding tracking_ok_def cp
    using assms lt by (auto simp: entry_ok_def tracking_ok_def enter_vertex_def nth_list_update)
  moreover have "weight (path_info (enter_vertex v m)) = path_weight data (current_path m @ [v])"
    using assms by (simp add: entry_ok_def enter_vertex_def)
  ultimately show ?thesis by (simp add: state_ok_def cp)
qed

lemma add_weight_fields [simp]:
  "visited (path_info (add_weight w m)) = visited (path_info m)"
  "path (path_info (add_weight w m)) = path (path_info m)"
  "path_index (path_info (add_weight w m)) = path_index (path_info m)"
  "weight (path_info (add_weight w m)) = weight (path_info m) + w"
  "all_paths (add_weight w m) = all_paths m"
  "realloc_calls (add_weight w m) = realloc_calls m"
  "stderr (add_weight w m) = stderr m"
  "current_path (add_weight w m) = current_path m"
  by (simp_all add: add_weight_def current_path_def)

lemma sub_weight_fields [simp]:
  "visited (path_info (sub_weight w m)) = visited (path_info m)"
  "path (path_info (sub_weight w m)) = path (path_info m)"
  "path_index (path_info (sub_weight w m)) = path_index (path_info m)"
  "weight (path_info (sub_weight w m)) = weight (path_info m) - w"
  "all_paths (sub_weight w m) = all_paths m"
  "realloc_calls (sub_weight w m) = realloc_calls m"
  "stderr (sub_weight w m) = stderr m"
  "current_path (sub_weight w m) = current_path m"
  by (simp_all add: sub_weight_def current_path_def)

lemma add_weight_entry_ok:
  assumes "state_ok data m" "current_path m \<noteq> []" "last (current_path m) = u"
    "i < graph_size (graph data)" "visited (path_info m) ! i = 0"
  shows "entry_ok data i (add_weight (matrix (graph data) ! u ! i) m)"
proof -
  have "i \<notin> set (current_path m)"
    using assms by (auto simp: state_ok_def tracking_ok_def)
  moreover have "tracking_ok data (add_weight (matrix (graph data) ! u ! i) m)"
    using assms(1) unfolding tracking_ok_def state_ok_def by simp
  ultimately show ?thesis
    using assms by (simp add: entry_ok_def state_ok_def path_weight_snoc)
qed

lemma leave_restored:
  assumes "entry_ok data v m" "restored (enter_vertex v m) m2"
  shows "restored m (leave_vertex v m2)"
proof -
  have lt: "path_index (path_info m) < graph_size (graph data)"
    by (rule entry_index_less[OF assms(1)])
  have t: "tracking_ok data m" and v: "v < graph_size (graph data)" "v \<notin> set (current_path m)"
    using assms(1) by (simp_all add: entry_ok_def)
  have len: "length (path (path_info m)) = graph_size (graph data)"
    "length (visited (path_info m)) = graph_size (graph data)"
    using t by (simp_all add: tracking_ok_def)
  have v0: "visited (path_info m) ! v = 0"
    using t v by (simp add: tracking_ok_def)
  have vis: "(visited (path_info m))[v := 1, v := 0] = visited (path_info m)"
    using v0 by (simp add: list_update_same_conv len v)
  have cp2: "current_path m2 = current_path m @ [v]"
    using assms(2) lt len by (simp add: restored_def current_path_enter)
  have idx2: "path_index (path_info m2) = path_index (path_info m) + 1"
    using assms(2) by (simp add: restored_def enter_vertex_def)
  have "current_path (leave_vertex v m2) = take (path_index (path_info m)) (current_path m2)"
    by (simp add: current_path_def leave_vertex_def idx2 min_def)
  then have cpl: "current_path (leave_vertex v m2) = current_path m"
    using cp2 length_current_path[OF t] by simp
  show ?thesis
    using assms(2) vis cpl idx2
    by (simp add: restored_def leave_vertex_def enter_vertex_def)
qed

lemma restored_state_ok: "restored m m' \<Longrightarrow> state_ok data m \<Longrightarrow> state_ok data m'"
  by (simp add: restored_def state_ok_def tracking_ok_def)

lemma restored_sub_weight:
  "restored (add_weight w m) m' \<Longrightarrow> restored m (sub_weight w m')"
  by (simp add: restored_def)

lemma add_path_path_info [simp]: "path_info (add_path ok cp n m) = path_info m"
  by (simp add: add_path_def Let_def)

lemma reached_destination_path_info [simp]:
  "path_info (reached_destination ok m) = path_info m"
  by (simp add: reached_destination_def Let_def)

lemma restored_reached: "restored m (reached_destination ok m)"
  by (simp add: restored_def current_path_def)

lemma copy_is_take: "n \<le> length xs \<Longrightarrow> map (\<lambda>i. xs ! i) [0..<n] = take n xs"
  by (rule nth_equalityI) simp_all

lemma add_path_stored_ok:
  assumes "stored_ok data m" "n \<le> length cp"
    "path_weight data (take n cp) = min_len (all_paths m)"
  shows "stored_ok data (add_path ok cp n m)"
  using assms by (auto simp: stored_ok_def add_path_def Let_def copy_is_take)

lemma reached_stored_ok:
  assumes "state_ok data m" "stored_ok data m"
  shows "stored_ok data (reached_destination ok m)"
proof -
  have le: "path_index (path_info m) \<le> length (path (path_info m))"
    using assms(1) by (simp add: state_ok_def tracking_ok_def)
  have w: "weight (path_info m) = path_weight data (take (path_index (path_info m)) (path (path_info m)))"
    using assms(1) by (simp add: state_ok_def current_path_def)
  let ?m1 = "m\<lparr>all_paths := (all_paths m)\<lparr>paths := [], count := 0,
                                                  min_len := weight (path_info m)\<rparr>\<rparr>"
  have s1: "stored_ok data ?m1" by (simp add: stored_ok_def)
  show ?thesis
  proof (cases "sint (weight (path_info m)) < sint (min_len (all_paths m))")
    case True
    have "stored_ok data (add_path ok (path (path_info m)) (path_index (path_info m)) ?m1)"
      by (rule add_path_stored_ok[OF s1 ]) (use le w in simp_all)
    then show ?thesis using True by (simp add: reached_destination_def)
  next
    case False
    show ?thesis
    proof (cases "weight (path_info m) = min_len (all_paths m)")
      case True
      have "stored_ok data (add_path ok (path (path_info m)) (path_index (path_info m)) m)"
        by (rule add_path_stored_ok[OF assms(2)]) (use le w True in simp_all)
      then show ?thesis using False True by (simp add: reached_destination_def)
    next
      case ne: False
      then show ?thesis using False assms(2) by (simp add: reached_destination_def)
    qed
  qed
qed

lemma explore_loop_done:
  "\<not> i < n \<Longrightarrow> explore_loop ok INIT d cords data n i m = Some m"
  by (simp add: explore_loop.simps)

lemma explore_loop_skip:
  "i < n \<Longrightarrow> \<not> may_extend INIT data (c_from cords) i m \<Longrightarrow>
   explore_loop ok INIT d cords data n i m = explore_loop ok INIT d cords data n (i + 1) m"
  by (subst explore_loop.simps) simp

lemma explore_loop_step:
  "i < n \<Longrightarrow> may_extend INIT data (c_from cords) i m \<Longrightarrow>
   explore_loop ok INIT d cords data n i m =
     (case find_all_from_to ok INIT d \<lparr>c_from = i, c_to = c_to cords\<rparr> data
             (add_weight (matrix (graph data) ! c_from cords ! i) m) of
        None \<Rightarrow> None
      | Some m' \<Rightarrow> explore_loop ok INIT d cords data n (i + 1)
                    (sub_weight (matrix (graph data) ! c_from cords ! i) m'))"
  by (subst explore_loop.simps) simp

lemma search_returns:
  "entry_ok data (c_from cords) m \<Longrightarrow> stored_ok data m \<Longrightarrow>
     graph_size (graph data) \<le> d + path_index (path_info m) \<Longrightarrow>
     \<exists>m'. find_all_from_to ok INIT d cords data m = Some m' \<and> restored m m' \<and> stored_ok data m'"
  "state_ok data m \<Longrightarrow> current_path m \<noteq> [] \<Longrightarrow> last (current_path m) = c_from cords \<Longrightarrow>
     stored_ok data m \<Longrightarrow> graph_size (graph data) \<le> d + path_index (path_info m) \<Longrightarrow>
     \<exists>m'. explore_neighbors ok INIT d cords data m = Some m' \<and> restored m m' \<and> stored_ok data m'"
  "state_ok data m \<Longrightarrow> current_path m \<noteq> [] \<Longrightarrow> last (current_path m) = c_from cords \<Longrightarrow>
     stored_ok data m \<Longrightarrow> graph_size (graph data) \<le> d + path_index (path_info m) \<Longrightarrow>
     n \<le> graph_size (graph data) \<Longrightarrow>
     \<exists>m'. explore_loop ok INIT d cords data n i m = Some m' \<and> restored m m' \<and> stored_ok data m'"
proof (induction ok INIT d cords data m and ok INIT d cords data m and ok INIT d cords data n i m
       rule: find_all_from_to_explore_neighbors_explore_loop.induct)
  case (1 ok INIT cords data m)
  then show ?case using entry_index_less[of data "c_from cords" m] by simp
next
  case (2 ok INIT d cords data m)
  let ?m1 = "enter_vertex (c_from cords) m"
  have lt: "path_index (path_info m) < graph_size (graph data)"
    by (rule entry_index_less[OF "2.prems"(1)])
  have len: "length (path (path_info m)) = graph_size (graph data)"
    using "2.prems"(1) by (simp add: entry_ok_def tracking_ok_def)
  have ok1: "state_ok data ?m1" by (rule enter_state_ok[OF "2.prems"(1)])
  have cp1: "current_path ?m1 = current_path m @ [c_from cords]"
    using lt len by (simp add: current_path_enter)
  have st1: "stored_ok data ?m1" using "2.prems"(2) by (simp add: stored_ok_def enter_vertex_def)
  have idx1: "path_index (path_info ?m1) = path_index (path_info m) + 1"
    by (simp add: enter_vertex_def)
  show ?case
  proof (cases "c_from cords = c_to cords")
    case True
    let ?m2 = "reached_destination ok ?m1"
    have "restored m (leave_vertex (c_from cords) ?m2)"
      by (rule leave_restored[OF "2.prems"(1) restored_reached])
    moreover have "stored_ok data (leave_vertex (c_from cords) ?m2)"
      using reached_stored_ok[OF ok1 st1, of ok] by (simp add: stored_ok_def leave_vertex_def)
    ultimately show ?thesis using True by simp
  next
    case False
    have "\<exists>m'. explore_neighbors ok INIT d cords data ?m1 = Some m' \<and> restored ?m1 m' \<and> stored_ok data m'"
      by (rule "2.IH"[OF refl False ok1 _ _ st1]) (use cp1 idx1 "2.prems"(3) in simp_all)
    then obtain m2 where m2: "explore_neighbors ok INIT d cords data ?m1 = Some m2"
      "restored ?m1 m2" "stored_ok data m2" by blast
    have "restored m (leave_vertex (c_from cords) m2)"
      by (rule leave_restored[OF "2.prems"(1) m2(2)])
    moreover have "stored_ok data (leave_vertex (c_from cords) m2)"
      using m2(3) by (simp add: stored_ok_def leave_vertex_def)
    ultimately show ?thesis using False m2(1) by simp
  qed
next
  case (3 ok INIT d cords data m)
  then show ?case by simp
next
  case (4 ok INIT d cords data n i m)
  let ?w = "matrix (graph data) ! c_from cords ! i"
  show ?case
  proof (cases "i < n")
    case False
    then show ?thesis using "4.prems"(4) by (simp add: restored_refl explore_loop_done)
  next
    case True
    show ?thesis
    proof (cases "may_extend INIT data (c_from cords) i m")
      case ext: True
      have iV: "i < graph_size (graph data)" using True "4.prems"(6) by simp
      have v0: "visited (path_info m) ! i = 0" using ext by (simp add: may_extend_def Let_def)
      have e: "entry_ok data i (add_weight ?w m)"
        by (rule add_weight_entry_ok[OF "4.prems"(1,2,3) iV v0])
      have "\<exists>m'. find_all_from_to ok INIT d \<lparr>c_from = i, c_to = c_to cords\<rparr> data (add_weight ?w m) = Some m'
              \<and> restored (add_weight ?w m) m' \<and> stored_ok data m'"
        by (rule "4.IH"(1)[OF True ext]) (use e "4.prems"(4,5) in \<open>simp_all add: stored_ok_def\<close>)
      then obtain m' where m': "find_all_from_to ok INIT d \<lparr>c_from = i, c_to = c_to cords\<rparr> data (add_weight ?w m) = Some m'"
        "restored (add_weight ?w m) m'" "stored_ok data m'" by blast
      have r: "restored m (sub_weight ?w m')" by (rule restored_sub_weight[OF m'(2)])
      have so: "state_ok data (sub_weight ?w m')" by (rule restored_state_ok[OF r "4.prems"(1)])
      have "\<exists>m''. explore_loop ok INIT d cords data n (i + 1) (sub_weight ?w m') = Some m''
              \<and> restored (sub_weight ?w m') m'' \<and> stored_ok data m''"
        by (rule "4.IH"(2)[OF True ext m'(1) so])
           (use r "4.prems" m'(3) in \<open>simp_all add: restored_def stored_ok_def\<close>)
      then obtain m'' where m'': "explore_loop ok INIT d cords data n (i + 1) (sub_weight ?w m') = Some m''"
        "restored (sub_weight ?w m') m''" "stored_ok data m''" by blast
      show ?thesis using True ext m'(1) m''(1,3) restored_trans[OF r m''(2)]
        by (simp add: explore_loop_step)
    next
      case noext: False
      have "\<exists>m'. explore_loop ok INIT d cords data n (i + 1) m = Some m' \<and> restored m m' \<and> stored_ok data m'"
        by (rule "4.IH"(3)[OF True noext "4.prems"])
      then show ?thesis using True noext by (simp add: explore_loop_skip)
    qed
  qed
qed

lemma bound_mono:
  "find_all_from_to ok INIT d cords data m = Some m' \<Longrightarrow>
     \<forall>d'\<ge>d. find_all_from_to ok INIT d' cords data m = Some m'"
  "explore_neighbors ok INIT d cords data m = Some m' \<Longrightarrow>
     \<forall>d'\<ge>d. explore_neighbors ok INIT d' cords data m = Some m'"
  "explore_loop ok INIT d cords data n i m = Some m' \<Longrightarrow>
     \<forall>d'\<ge>d. explore_loop ok INIT d' cords data n i m = Some m'"
proof (induction ok INIT d cords data m and ok INIT d cords data m and ok INIT d cords data n i m
       arbitrary: m' and m' and m'
       rule: find_all_from_to_explore_neighbors_explore_loop.induct)
  case (1 ok INIT cords data m)
  then show ?case by simp
next
  case (2 ok INIT d cords data m)
  show ?case
  proof (intro allI impI)
    fix d' assume "Suc d \<le> d'"
    then obtain e where d': "d' = Suc e" and e: "d \<le> e" by (cases d') auto
    show "find_all_from_to ok INIT d' cords data m = Some m'"
    proof (cases "c_from cords = c_to cords")
      case True
      then show ?thesis using "2.prems" d' by simp
    next
      case False
      from "2.prems" False
      have "(case explore_neighbors ok INIT d cords data (enter_vertex (c_from cords) m) of
               None \<Rightarrow> None | Some m2 \<Rightarrow> Some (leave_vertex (c_from cords) m2)) = Some m'"
        by simp
      then obtain m2 where
        m2: "explore_neighbors ok INIT d cords data (enter_vertex (c_from cords) m) = Some m2"
        and r: "m' = leave_vertex (c_from cords) m2"
        by (cases "explore_neighbors ok INIT d cords data (enter_vertex (c_from cords) m)") auto
      have "explore_neighbors ok INIT e cords data (enter_vertex (c_from cords) m) = Some m2"
        using "2.IH"[OF refl False m2] e by blast
      then show ?thesis using False d' r by simp
    qed
  qed
next
  case (3 ok INIT d cords data m)
  from "3.prems"
  have "explore_loop ok INIT d cords data (graph_size (graph data)) 0 m = Some m'" by simp
  from "3.IH"[OF this] show ?case by simp
next
  case (4 ok INIT d cords data n i m)
  let ?w = "matrix (graph data) ! c_from cords ! i"
  show ?case
  proof (intro allI impI)
    fix d' assume le: "d \<le> d'"
    show "explore_loop ok INIT d' cords data n i m = Some m'"
    proof (cases "i < n")
      case False
      then show ?thesis using "4.prems" by (simp add: explore_loop_done)
    next
      case True
      show ?thesis
      proof (cases "may_extend INIT data (c_from cords) i m")
        case ext: True
        from "4.prems"
        have "(case find_all_from_to ok INIT d \<lparr>c_from = i, c_to = c_to cords\<rparr> data (add_weight ?w m) of
                 None \<Rightarrow> None
               | Some m1 \<Rightarrow> explore_loop ok INIT d cords data n (i + 1) (sub_weight ?w m1)) = Some m'"
          by (simp only: explore_loop_step[OF True ext])
        then obtain m1 where
          m1: "find_all_from_to ok INIT d \<lparr>c_from = i, c_to = c_to cords\<rparr> data (add_weight ?w m) = Some m1"
          and rest: "explore_loop ok INIT d cords data n (i + 1) (sub_weight ?w m1) = Some m'"
          by (cases "find_all_from_to ok INIT d \<lparr>c_from = i, c_to = c_to cords\<rparr> data (add_weight ?w m)") auto
        have a: "find_all_from_to ok INIT d' \<lparr>c_from = i, c_to = c_to cords\<rparr> data (add_weight ?w m) = Some m1"
          using "4.IH"(1)[OF True ext m1] le by blast
        have b: "explore_loop ok INIT d' cords data n (i + 1) (sub_weight ?w m1) = Some m'"
          using "4.IH"(2)[OF True ext m1 rest] le by blast
        show ?thesis using a b by (simp add: explore_loop_step[OF True ext])
      next
        case noext: False
        have "explore_loop ok INIT d cords data n (i + 1) m = Some m'"
          using "4.prems" by (simp add: explore_loop_skip[OF True noext])
        then have "explore_loop ok INIT d' cords data n (i + 1) m = Some m'"
          using "4.IH"(3)[OF True noext] le by blast
        then show ?thesis by (simp add: explore_loop_skip[OF True noext])
      qed
    qed
  qed
qed

lemma fresh_entry_ok:
  "v < graph_size (graph data) \<Longrightarrow>
   entry_ok data v (fresh_machine uninit (graph_size (graph data)) k e)"
  by (simp add: entry_ok_def tracking_ok_def fresh_machine_def create_path_info_def
      current_path_def)

lemma fresh_stored_ok: "stored_ok data (fresh_machine uninit n k e)"
  by (simp add: stored_ok_def fresh_machine_def create_paths_def)

lemma fresh_path_index [simp]: "path_index (path_info (fresh_machine uninit n k e)) = 0"
  by (simp add: fresh_machine_def create_path_info_def)

lemma enter_vertex_fields [simp]:
  "all_paths (enter_vertex v m) = all_paths m"
  "realloc_calls (enter_vertex v m) = realloc_calls m"
  "stderr (enter_vertex v m) = stderr m"
  "weight (path_info (enter_vertex v m)) = weight (path_info m)"
  "path_index (path_info (enter_vertex v m)) = path_index (path_info m) + 1"
  by (simp_all add: enter_vertex_def)

lemma leave_vertex_fields [simp]:
  "all_paths (leave_vertex v m) = all_paths m"
  "realloc_calls (leave_vertex v m) = realloc_calls m"
  "stderr (leave_vertex v m) = stderr m"
  "weight (path_info (leave_vertex v m)) = weight (path_info m)"
  "path_index (path_info (leave_vertex v m)) = path_index (path_info m) - 1"
  by (simp_all add: leave_vertex_def)

lemma add_path_ok:
  assumes "ok (realloc_calls m)" "n \<le> length cp" "count (all_paths m) = length (paths (all_paths m))"
  shows "add_path ok cp n m =
     m\<lparr>realloc_calls := realloc_calls m + 1,
       all_paths := (all_paths m)\<lparr>paths := paths (all_paths m) @ [\<lparr>vertices = take n cp, len = n\<rparr>],
                                 count := count (all_paths m) + 1\<rparr>\<rparr>"
  using assms by (simp add: add_path_def Let_def copy_is_take)

lemma add_path_fail:
  assumes "\<not> ok (realloc_calls m)"
  shows "add_path ok cp n m =
     m\<lparr>realloc_calls := realloc_calls m + 1,
       stderr := stderr m @ [''error: memory allocation failed in add_path'']\<rparr>"
  using assms by (simp add: add_path_def Let_def)

lemma sint_le_INT_MAX: "sint (x :: c_int) \<le> sint INT_MAX"
proof -
  have "sint x < 2 ^ (LENGTH(32) - 1)" by (rule sint_lt)
  then show ?thesis by (simp add: INT_MAX_def)
qed

lemma sint_eq_iff: "sint (a :: c_int) = sint b \<longleftrightarrow> a = b"
  using signed_word_eqI by auto

section \<open>Invariants along the nested calls\<close>

lemma sint_add_no_overflow:
  fixes a b :: c_int
  assumes "0 \<le> sint a" "0 \<le> sint b" "sint a + sint b \<le> 2147483647"
  shows "sint (a + b) = sint a + sint b"
proof -
  have "sint (a + b) = signed_take_bit (LENGTH(32) - 1) (sint a + sint b)"
    by (rule sint_word_add)
  also have "\<dots> = sint a + sint b"
    using assms by (intro signed_take_bit_int_eq_self) simp_all
  finally show ?thesis .
qed

lemma total_weight_nonneg: "nonneg_along data p \<Longrightarrow> 0 \<le> total_weight data p"
  by (induction data p rule: total_weight.induct) auto

lemma sint_path_weight:
  "nonneg_along data p \<Longrightarrow> total_weight data p \<le> 2147483647 \<Longrightarrow>
   sint (path_weight data p) = total_weight data p"
proof (induction data p rule: total_weight.induct)
  case (1 data u v vs)
  have n: "0 \<le> sint (matrix (graph data) ! u ! v)" "nonneg_along data (v # vs)"
    using "1.prems"(1) by simp_all
  have t: "0 \<le> total_weight data (v # vs)" by (rule total_weight_nonneg[OF n(2)])
  have le: "total_weight data (v # vs) \<le> 2147483647" using "1.prems"(2) n(1) by simp
  have ih: "sint (path_weight data (v # vs)) = total_weight data (v # vs)"
    by (rule "1.IH"[OF n(2) le])
  have "sint (matrix (graph data) ! u ! v + path_weight data (v # vs)) =
        sint (matrix (graph data) ! u ! v) + sint (path_weight data (v # vs))"
    by (rule sint_add_no_overflow) (use n t ih "1.prems"(2) in simp_all)
  then show ?case using ih by simp
qed simp_all

lemma sint_path_weight_wraps:
  "sint (path_weight data p) = signed_take_bit 31 (total_weight data p)"
proof (induction data p rule: total_weight.induct)
  case (1 data u v vs)
  let ?w = "matrix (graph data) ! u ! v"
  have r: "signed_take_bit 31 (sint ?w) = sint ?w"
    using sint_ge[of ?w] sint_lt[of ?w] by (intro signed_take_bit_int_eq_self) simp_all
  have "sint (?w + path_weight data (v # vs)) =
        signed_take_bit (LENGTH(32) - 1) (sint ?w + sint (path_weight data (v # vs)))"
    by (rule sint_word_add)
  also have "\<dots> = signed_take_bit 31
        (signed_take_bit 31 (sint ?w) + signed_take_bit 31 (total_weight data (v # vs)))"
    using "1.IH" r by simp
  also have "\<dots> = signed_take_bit 31 (sint ?w + total_weight data (v # vs))"
    by (rule signed_take_bit_add)
  finally show ?case by simp
qed simp_all

lemma sint_path_weight_exact:
  "sint (path_weight data p) = total_weight data p \<longleftrightarrow>
     - 2147483648 \<le> total_weight data p \<and> total_weight data p \<le> 2147483647"
proof
  assume "sint (path_weight data p) = total_weight data p"
  then show "- 2147483648 \<le> total_weight data p \<and> total_weight data p \<le> 2147483647"
    using sint_ge[of "path_weight data p"] sint_lt[of "path_weight data p"] by simp
next
  assume "- 2147483648 \<le> total_weight data p \<and> total_weight data p \<le> 2147483647"
  then have "signed_take_bit 31 (total_weight data p) = total_weight data p"
    by (intro signed_take_bit_int_eq_self) simp_all
  then show "sint (path_weight data p) = total_weight data p"
    by (simp add: sint_path_weight_wraps)
qed



lemma stored_ok_weights:
  assumes "stored_ok data m"
  shows "stored_weights_ok data m"
  unfolding stored_weights_ok_def
proof (intro ballI conjI)
  fix p assume p: "p \<in> set (paths (all_paths m))"
  then show w: "path_weight data (vertices p) = min_len (all_paths m)"
    using assms by (simp add: stored_ok_def)
  show "(total_weight data (vertices p) = sint (min_len (all_paths m))) =
          (- 2147483648 \<le> total_weight data (vertices p) \<and>
           total_weight data (vertices p) \<le> 2147483647)"
    using sint_path_weight_exact[of data "vertices p"] w by auto
qed

lemma nested_call_entry:
  assumes "nested_call ok INIT data target (d0, start, m0) (d, v, m)"
    and "entry_ok data start m0" "stored_ok data m0"
    and "graph_size (graph data) \<le> d0 + path_index (path_info m0)"
  shows "entry_ok data v m \<and> stored_ok data m \<and>
         graph_size (graph data) \<le> d + path_index (path_info m)"
  using assms
proof (induction "(d0, start, m0)" "(d, v, m)" arbitrary: d v m rule: nested_call.induct)
  case outermost
  then show ?case by simp
next
  case (inner d v m i mi)
  let ?c = "\<lparr>c_from = v, c_to = target\<rparr>"
  let ?m1 = "enter_vertex v m"
  have P: "entry_ok data v m" "stored_ok data m"
    "graph_size (graph data) \<le> Suc d + path_index (path_info m)"
    using inner.hyps(2)[OF inner.prems] by simp_all
  have lt: "path_index (path_info m) < graph_size (graph data)" by (rule entry_index_less[OF P(1)])
  have len: "length (path (path_info m)) = graph_size (graph data)"
    using P(1) by (simp add: entry_ok_def tracking_ok_def)
  have ok1: "state_ok data ?m1" by (rule enter_state_ok[OF P(1)])
  have cp1: "current_path ?m1 = current_path m @ [v]" using lt len by (simp add: current_path_enter)
  have st1: "stored_ok data ?m1" using P(2) by (simp add: stored_ok_def)
  have "\<exists>m'. explore_loop ok INIT d ?c data i 0 ?m1 = Some m' \<and> restored ?m1 m' \<and> stored_ok data m'"
    by (rule search_returns(3)[OF ok1 _ _ st1]) (use cp1 P(3) inner.hyps(4) in simp_all)
  then have r: "restored ?m1 mi" and st: "stored_ok data mi" using inner.hyps(5) by auto
  have oki: "state_ok data mi" by (rule restored_state_ok[OF r ok1])
  have cpi: "current_path mi = current_path m @ [v]" using r cp1 by (simp add: restored_def)
  have v0: "visited (path_info mi) ! i = 0" using inner.hyps(6) by (simp add: may_extend_def Let_def)
  have "entry_ok data i (add_weight (matrix (graph data) ! v ! i) mi)"
    by (rule add_weight_entry_ok[OF oki _ _ inner.hyps(4) v0]) (simp_all add: cpi)
  moreover have "stored_ok data (add_weight (matrix (graph data) ! v ! i) mi)"
    using st by (simp add: stored_ok_def)
  moreover have "path_index (path_info mi) = path_index (path_info m) + 1"
    using r by (simp add: restored_def)
  ultimately show ?case using P(3) by simp
qed

lemma nested_call_in_bounds:
  assumes "nested_call ok INIT data target (d0, start, m0) (d, v, m)"
    and "entry_ok data start m0" "stored_ok data m0"
    and "graph_size (graph data) \<le> d0 + path_index (path_info m0)"
  shows "v < length (visited (path_info m)) \<and>
         path_index (path_info m) < length (path (path_info m)) \<and>
         v < graph_size (graph data)"
proof -
  have e: "entry_ok data v m" using nested_call_entry[OF assms] by simp
  then show ?thesis using entry_index_less[OF e] by (simp add: entry_ok_def tracking_ok_def)
qed


lemma nested_call_states:
  assumes "nested_call ok INIT data target (d0, start, m0) (d, v, m)"
    and "entry_ok data start m0" "stored_ok data m0"
    and "graph_size (graph data) \<le> d0 + path_index (path_info m0)"
  shows "state_ok data (enter_vertex v m)"
    and "stored_ok data m"
    and "i \<le> graph_size (graph data) \<Longrightarrow>
         explore_loop ok INIT (d - 1) \<lparr>c_from = v, c_to = target\<rparr> data i 0 (enter_vertex v m) = Some mi \<Longrightarrow>
         state_ok data mi \<and> stored_ok data mi"
    and "state_ok data (reached_destination ok (enter_vertex v m)) \<and>
         stored_ok data (reached_destination ok (enter_vertex v m))"
    and "\<exists>m'. find_all_from_to ok INIT d \<lparr>c_from = v, c_to = target\<rparr> data m = Some m' \<and>
           restored m m' \<and> stored_ok data m'"
proof -
  let ?c = "\<lparr>c_from = v, c_to = target\<rparr>"
  let ?m1 = "enter_vertex v m"
  have P: "entry_ok data v m" "stored_ok data m"
    "graph_size (graph data) \<le> d + path_index (path_info m)"
    using nested_call_entry[OF assms] by simp_all
  show "stored_ok data m" by (rule P(2))
  have lt: "path_index (path_info m) < graph_size (graph data)" by (rule entry_index_less[OF P(1)])
  have len: "length (path (path_info m)) = graph_size (graph data)"
    using P(1) by (simp add: entry_ok_def tracking_ok_def)
  show ok1: "state_ok data ?m1" by (rule enter_state_ok[OF P(1)])
  have cp1: "current_path ?m1 = current_path m @ [v]" using lt len by (simp add: current_path_enter)
  have st1: "stored_ok data ?m1" using P(2) by (simp add: stored_ok_def)
  show "state_ok data mi \<and> stored_ok data mi"
    if i: "i \<le> graph_size (graph data)"
      and run: "explore_loop ok INIT (d - 1) ?c data i 0 ?m1 = Some mi"
  proof -
    have "\<exists>m'. explore_loop ok INIT (d - 1) ?c data i 0 ?m1 = Some m' \<and> restored ?m1 m' \<and>
            stored_ok data m'"
      by (rule search_returns(3)[OF ok1 _ _ st1]) (use cp1 P(3) lt i in simp_all)
    then have "restored ?m1 mi" "stored_ok data mi" using run by auto
    then show ?thesis using restored_state_ok[OF _ ok1] by blast
  qed
  have "restored ?m1 (reached_destination ok ?m1)" by (rule restored_reached)
  then show "state_ok data (reached_destination ok ?m1) \<and> stored_ok data (reached_destination ok ?m1)"
    using restored_state_ok[OF _ ok1] reached_stored_ok[OF ok1 st1] by blast
  show "\<exists>m'. find_all_from_to ok INIT d ?c data m = Some m' \<and> restored m m' \<and> stored_ok data m'"
    by (rule search_returns(1)) (use P in simp_all)
qed

lemma line_graph_size: "graph_size (graph line_graph) = 3"
  by (simp add: line_graph_def)

lemma line_graph_nested:
  "nested_call mx_realloc_ok 7 line_graph 2
     (3, 0, fresh_machine [] (graph_size (graph line_graph)) 0 []) (2, 1, after_first_edge)"
proof -
  let ?c = "\<lparr>c_from = 0, c_to = 2\<rparr>"
  have v: "\<not> may_extend 7 line_graph (c_from ?c) 0 at_source"
    by (simp add: may_extend_def at_source_def fresh_machine_def create_path_info_def
        enter_vertex_def)
  have "explore_loop mx_realloc_ok 7 2 ?c line_graph 1 0 at_source =
        explore_loop mx_realloc_ok 7 2 ?c line_graph 1 (0 + 1) at_source"
    by (rule explore_loop_skip[OF _ v]) simp
  then have run: "explore_loop mx_realloc_ok 7 2 ?c line_graph 1 0 at_source = Some at_source"
    by (simp add: explore_loop_done)
  have ext: "may_extend 7 line_graph 0 1 at_source"
    by (simp add: may_extend_def at_source_def fresh_machine_def create_path_info_def
        create_paths_def enter_vertex_def line_graph_def INT_MAX_def)
  have w: "matrix (graph line_graph) ! 0 ! 1 = 1" by (simp add: line_graph_def)
  have "nested_call mx_realloc_ok 7 line_graph 2 (Suc 2, 0, fresh_machine [] 3 0 [])
          (2, 1, add_weight (matrix (graph line_graph) ! 0 ! 1) at_source)"
    by (rule nested_call.inner[OF nested_call.outermost])
       (use run ext in \<open>simp_all add: line_graph_size at_source_def\<close>)
  then show ?thesis unfolding w by (simp add: after_first_edge_def line_graph_size)
qed

section \<open>What reaches \<open>stderr\<close>\<close>








section \<open>The pairs searched by the outer loops\<close>

lemma find_all_from_loop_pairs:
  assumes "start_id < graph_size (graph data)" "graph_size (graph data) \<le> d"
  shows "\<exists>w'. find_all_from_loop ok INIT d uninit start_id targets data w = Some w' \<and>
           map fst (searches w') =
             map fst (searches w) @ map (\<lambda>y. \<lparr>c_from = start_id, c_to = y\<rparr>) targets"
proof (induction targets arbitrary: w)
  case Nil
  then show ?case by simp
next
  case (Cons t ts)
  let ?m = "fresh_machine uninit (graph_size (graph data)) (p_realloc_calls w) (p_stderr w)"
  let ?c = "\<lparr>c_from = start_id, c_to = t\<rparr>"
  have "entry_ok data (c_from ?c) ?m" using assms(1) by (simp add: fresh_entry_ok)
  from search_returns(1)[OF this fresh_stored_ok, of d ok INIT] assms(2)
  obtain m' where m': "find_all_from_to ok INIT d ?c data ?m = Some m'" by auto
  let ?w1 = "w\<lparr>p_realloc_calls := realloc_calls m', p_stderr := stderr m',
                 searches := searches w @ [(?c, all_paths m')]\<rparr>"
  from Cons.IH[of ?w1] obtain w' where
    w': "find_all_from_loop ok INIT d uninit start_id ts data ?w1 = Some w'"
    "map fst (searches w') = map fst (searches ?w1) @ map (\<lambda>y. \<lparr>c_from = start_id, c_to = y\<rparr>) ts"
    by blast
  have "find_all_from_loop ok INIT d uninit start_id (t # ts) data w = Some w'"
    using m' w'(1) by (simp add: Let_def fresh_machine_def)
  then show ?case using w'(2) by simp
qed

lemma execute_loop_pairs:
  assumes "\<forall>v \<in> set ns. v < graph_size (graph data)" "graph_size (graph data) \<le> d"
  shows "\<exists>w'. execute_loop ok INIT d uninit ns data w = Some w' \<and>
           map fst (searches w') = map fst (searches w) @ later_pairs ns"
  using assms(1)
proof (induction ns arbitrary: w)
  case Nil
  then show ?case by simp
next
  case (Cons x xs)
  have x: "x < graph_size (graph data)" using Cons.prems by simp
  from find_all_from_loop_pairs[OF x assms(2), of ok INIT uninit xs w]
  obtain w1 where w1: "find_all_from ok INIT d uninit x xs data w = Some w1"
    "map fst (searches w1) = map fst (searches w) @ map (\<lambda>y. \<lparr>c_from = x, c_to = y\<rparr>) xs"
    by (auto simp: find_all_from_def)
  from Cons.IH[of w1] Cons.prems obtain w' where
    w': "execute_loop ok INIT d uninit xs data w1 = Some w'"
    "map fst (searches w') = map fst (searches w1) @ later_pairs xs"
    by auto
  show ?case using w1 w' by simp
qed

lemma later_pairs_iff:
  "c \<in> set (later_pairs ns) \<longleftrightarrow>
     (\<exists>i j. i < j \<and> j < length ns \<and> c = \<lparr>c_from = ns ! i, c_to = ns ! j\<rparr>)"
proof (induction ns)
  case Nil
  then show ?case by simp
next
  case (Cons x xs)
  show ?case
  proof
    assume "c \<in> set (later_pairs (x # xs))"
    then consider y where "y \<in> set xs" "c = \<lparr>c_from = x, c_to = y\<rparr>" | "c \<in> set (later_pairs xs)"
      by auto
    then show "\<exists>i j. i < j \<and> j < length (x # xs) \<and> c = \<lparr>c_from = (x # xs) ! i, c_to = (x # xs) ! j\<rparr>"
    proof cases
      case 1
      then obtain j where "j < length xs" "xs ! j = y" by (auto simp: in_set_conv_nth)
      then have "0 < Suc j \<and> Suc j < length (x # xs) \<and>
                 c = \<lparr>c_from = (x # xs) ! 0, c_to = (x # xs) ! Suc j\<rparr>"
        using 1 by simp
      then show ?thesis by blast
    next
      case 2
      then obtain i j where "i < j" "j < length xs" "c = \<lparr>c_from = xs ! i, c_to = xs ! j\<rparr>"
        using Cons.IH by blast
      then have "Suc i < Suc j \<and> Suc j < length (x # xs) \<and>
                 c = \<lparr>c_from = (x # xs) ! Suc i, c_to = (x # xs) ! Suc j\<rparr>"
        by simp
      then show ?thesis by blast
    qed
  next
    assume "\<exists>i j. i < j \<and> j < length (x # xs) \<and> c = \<lparr>c_from = (x # xs) ! i, c_to = (x # xs) ! j\<rparr>"
    then obtain i j where ij: "i < j" "j < length (x # xs)"
      "c = \<lparr>c_from = (x # xs) ! i, c_to = (x # xs) ! j\<rparr>" by blast
    then obtain j' where j': "j = Suc j'" by (cases j) auto
    show "c \<in> set (later_pairs (x # xs))"
    proof (cases i)
      case 0
      then show ?thesis using ij j' by simp
    next
      case (Suc i')
      then have "i' < j' \<and> j' < length xs \<and> c = \<lparr>c_from = xs ! i', c_to = xs ! j'\<rparr>"
        using ij j' by simp
      then have "c \<in> set (later_pairs xs)" using Cons.IH by blast
      then show ?thesis by simp
    qed
  qed
qed

section \<open>The simple paths, enumerated\<close>

lemma is_walk_snoc:
  "is_walk INIT data (p @ [v]) =
     (is_walk INIT data p \<and> (p \<noteq> [] \<longrightarrow> matrix (graph data) ! last p ! v \<noteq> INIT))"
  by (induction INIT data p rule: is_walk.induct) auto

lemma is_walk_Cons:
  "is_walk INIT data (u # p) =
     (is_walk INIT data p \<and> (p \<noteq> [] \<longrightarrow> matrix (graph data) ! u ! hd p \<noteq> INIT))"
  by (cases p) auto

lemma distinct_length_le:
  assumes "distinct xs" "\<forall>u \<in> set xs. u < (n::nat)"
  shows "length xs \<le> n"
proof -
  have "card (set xs) \<le> card {..<n}" using assms(2) by (intro card_mono) auto
  then show ?thesis using assms(1) by (simp add: distinct_card)
qed

lemma dfs_paths_sound:
  "q \<in> set (dfs_paths INIT data d pre v t) \<Longrightarrow> distinct (pre @ [v]) \<Longrightarrow>
   \<forall>u \<in> set (pre @ [v]). u < graph_size (graph data) \<Longrightarrow> is_walk INIT data (pre @ [v]) \<Longrightarrow>
   (\<exists>r. q = pre @ v # r) \<and> distinct q \<and> (\<forall>u \<in> set q. u < graph_size (graph data)) \<and>
   is_walk INIT data q \<and> last q = t"
proof (induction INIT data d pre v t arbitrary: q rule: dfs_paths.induct)
  case (1 INIT data pre v t)
  then show ?case by simp
next
  case (2 INIT data d pre v t)
  show ?case
  proof (cases "v = t")
    case True
    then have "q = pre @ [v]" using "2.prems"(1) by simp
    then show ?thesis using "2.prems" True by simp
  next
    case False
    from "2.prems"(1) False obtain i where
      i: "i < graph_size (graph data)" "matrix (graph data) ! v ! i \<noteq> INIT" "i \<notin> set (pre @ [v])"
      and q: "q \<in> set (dfs_paths INIT data d (pre @ [v]) i t)"
      by (auto split: if_splits)
    have "(\<exists>r. q = (pre @ [v]) @ i # r) \<and> distinct q \<and> (\<forall>u \<in> set q. u < graph_size (graph data)) \<and>
          is_walk INIT data q \<and> last q = t"
    proof (rule "2.IH"[OF False _ _ q])
      show "i \<in> set [0..<graph_size (graph data)]" using i(1) by simp
      show "matrix (graph data) ! v ! i \<noteq> INIT \<and> i \<notin> set (pre @ [v])" using i by simp
      show "distinct ((pre @ [v]) @ [i])" using "2.prems"(2) i(3) by simp
      show "\<forall>u \<in> set ((pre @ [v]) @ [i]). u < graph_size (graph data)"
        using "2.prems"(3) i(1) by simp
      show "is_walk INIT data ((pre @ [v]) @ [i])"
        using "2.prems"(4) i(2) is_walk_snoc[of INIT data "pre @ [v]" i] by simp
    qed
    then show ?thesis by auto
  qed
qed

lemma dfs_paths_complete:
  "q \<noteq> [] \<Longrightarrow> hd q = v \<Longrightarrow> last q = t \<Longrightarrow> distinct (pre @ q) \<Longrightarrow>
   \<forall>u \<in> set (pre @ q). u < graph_size (graph data) \<Longrightarrow> is_walk INIT data q \<Longrightarrow>
   graph_size (graph data) \<le> d + length pre \<Longrightarrow>
   pre @ q \<in> set (dfs_paths INIT data d pre v t)"
proof (induction q arbitrary: pre v d)
  case Nil
  then show ?case by simp
next
  case (Cons a q)
  have a: "a = v" using Cons.prems(2) by simp
  have "length (pre @ a # q) \<le> graph_size (graph data)"
    by (rule distinct_length_le[OF Cons.prems(4,5)])
  then have "0 < d" using Cons.prems(7) by simp
  then obtain d' where d: "d = Suc d'" by (cases d) auto
  show ?case
  proof (cases q)
    case Nil
    then have "v = t" using Cons.prems(3) a by simp
    then show ?thesis using Nil a d by simp
  next
    case (Cons i r)
    have vt: "v \<noteq> t"
    proof
      assume "v = t"
      then have "a = last q" using Cons.prems(3) a Cons by simp
      moreover have "last q \<in> set q" using Cons by simp
      ultimately show False using Cons.prems(4) by simp
    qed
    have i: "i < graph_size (graph data)" "matrix (graph data) ! v ! i \<noteq> INIT"
      "i \<notin> set (pre @ [v])"
      using Cons.prems(4,5,6) a Cons by auto
    have "(pre @ [v]) @ q \<in> set (dfs_paths INIT data d' (pre @ [v]) i t)"
    proof (rule Cons.IH)
      show "q \<noteq> []" "hd q = i" using Cons by simp_all
      show "last q = t" using Cons.prems(3) Cons by simp
      show "distinct ((pre @ [v]) @ q)" using Cons.prems(4) a by simp
      show "\<forall>u \<in> set ((pre @ [v]) @ q). u < graph_size (graph data)"
        using Cons.prems(5) a by simp
      show "is_walk INIT data q" using Cons.prems(6) Cons by simp
      show "graph_size (graph data) \<le> d' + length (pre @ [v])" using Cons.prems(7) d by simp
    qed
    then show ?thesis using vt d a i by auto
  qed
qed

lemma dfs_paths_simple:
  assumes "s < graph_size (graph data)" "graph_size (graph data) \<le> d"
  shows "set (dfs_paths INIT data d [] s t) = {p. simple_path INIT data s t p}"
proof (intro set_eqI iffI)
  fix p assume "p \<in> set (dfs_paths INIT data d [] s t)"
  from dfs_paths_sound[OF this] assms(1)
  show "p \<in> {p. simple_path INIT data s t p}" by (auto simp: simple_path_def)
next
  fix p assume "p \<in> {p. simple_path INIT data s t p}"
  then have "[] @ p \<in> set (dfs_paths INIT data d [] s t)"
    using assms(2) by (intro dfs_paths_complete) (simp_all add: simple_path_def)
  then show "p \<in> set (dfs_paths INIT data d [] s t)" by simp
qed

lemma dfs_paths_prefix:
  "q \<in> set (dfs_paths INIT data d pre v t) \<Longrightarrow> \<exists>r. q = pre @ v # r"
proof (induction INIT data d pre v t arbitrary: q rule: dfs_paths.induct)
  case (1 INIT data pre v t)
  then show ?case by simp
next
  case (2 INIT data d pre v t)
  show ?case
  proof (cases "v = t")
    case True
    then show ?thesis using "2.prems" by simp
  next
    case False
    from "2.prems" False obtain i where
      i: "i \<in> set [0..<graph_size (graph data)]"
         "matrix (graph data) ! v ! i \<noteq> INIT \<and> i \<notin> set (pre @ [v])"
      and q: "q \<in> set (dfs_paths INIT data d (pre @ [v]) i t)"
      by (auto split: if_splits)
    from "2.IH"[OF False i q] show ?thesis by auto
  qed
qed

lemma distinct_concat_map:
  assumes "distinct xs"
    and "\<And>x. x \<in> set xs \<Longrightarrow> distinct (f x)"
    and "\<And>x y. x \<in> set xs \<Longrightarrow> y \<in> set xs \<Longrightarrow> x \<noteq> y \<Longrightarrow> set (f x) \<inter> set (f y) = {}"
  shows "distinct (concat (map f xs))"
  using assms
proof (induction xs)
  case Nil
  then show ?case by simp
next
  case (Cons a xs)
  have "distinct (concat (map f xs))"
    by (rule Cons.IH) (use Cons.prems in auto)
  moreover have "distinct (f a)" using Cons.prems(2) by simp
  moreover have "set (f a) \<inter> set (concat (map f xs)) = {}"
  proof -
    have "set (f a) \<inter> set (f y) = {}" if "y \<in> set xs" for y
      using Cons.prems(1) Cons.prems(3)[of a y] that by auto
    then show ?thesis by auto
  qed
  ultimately show ?case by simp
qed

lemma distinct_dfs_paths: "distinct (dfs_paths INIT data d pre v t)"
proof (induction INIT data d pre v t rule: dfs_paths.induct)
  case (1 INIT data pre v t)
  then show ?case by simp
next
  case (2 INIT data d pre v t)
  let ?f = "\<lambda>i. if matrix (graph data) ! v ! i \<noteq> INIT \<and> i \<notin> set (pre @ [v])
                 then dfs_paths INIT data d (pre @ [v]) i t else []"
  show ?case
  proof (cases "v = t")
    case True
    then show ?thesis by simp
  next
    case False
    have "distinct (concat (map ?f [0..<graph_size (graph data)]))"
    proof (rule distinct_concat_map)
      show "distinct [0..<graph_size (graph data)]" by simp
      show "distinct (?f x)" if "x \<in> set [0..<graph_size (graph data)]" for x
        using "2.IH"[OF False that] by simp
      show "set (?f x) \<inter> set (?f y) = {}" if "x \<noteq> y" for x y
      proof -
        have "q \<notin> set (?f y)" if q: "q \<in> set (?f x)" for q
        proof
          assume q': "q \<in> set (?f y)"
          from q obtain r where "q = (pre @ [v]) @ x # r"
            using dfs_paths_prefix[of q INIT data d "pre @ [v]" x t] by (auto split: if_splits)
          moreover from q' obtain r' where "q = (pre @ [v]) @ y # r'"
            using dfs_paths_prefix[of q INIT data d "pre @ [v]" y t] by (auto split: if_splits)
          ultimately show False using \<open>x \<noteq> y\<close> by simp
        qed
        then show ?thesis by auto
      qed
    qed
    then show ?thesis using False by simp
  qed
qed

section \<open>Recording a list of candidates\<close>

lemma recorded_step:
  assumes r: "recorded data L ap" and w: "sint (path_weight data x) = total_weight data x"
  shows "recorded data (L @ [x]) (record_path data ap x)"
proof -
  consider (less) "sint (path_weight data x) < sint (min_len ap)"
    | (eq) "path_weight data x = min_len ap"
    | (more) "sint (min_len ap) < sint (path_weight data x)"
    using sint_eq_iff[of "path_weight data x" "min_len ap"] by fastforce
  then show ?thesis
  proof cases
    case less
    then have rp: "record_path data ap x =
        \<lparr>paths = [\<lparr>vertices = x, len = length x\<rparr>], count = 1, min_len = path_weight data x\<rparr>"
      by (simp add: record_path_def)
    have lt: "\<forall>q \<in> set L. total_weight data x < total_weight data q"
      using r less w by (auto simp: recorded_def)
    then have "filter (\<lambda>p. total_weight data p = total_weight data x) L = []"
      by (auto simp: filter_empty_conv)
    then show ?thesis using rp lt w by (auto simp: recorded_def)
  next
    case eq
    then have "record_path data ap x =
        ap\<lparr>paths := paths ap @ [\<lparr>vertices = x, len = length x\<rparr>], count := count ap + 1\<rparr>"
      by (simp add: record_path_def)
    then show ?thesis using r w eq by (auto simp: recorded_def)
  next
    case more
    then have same: "record_path data ap x = ap" by (auto simp: record_path_def)
    have "L \<noteq> []"
    proof
      assume "L = []"
      then have "min_len ap = INT_MAX" using r by (simp add: recorded_def create_paths_def)
      then show False using more sint_le_INT_MAX[of "path_weight data x"] by simp
    qed
    then show ?thesis using r w more same by (auto simp: recorded_def)
  qed
qed

lemma recorded_foldl:
  assumes "\<forall>p \<in> set L. sint (path_weight data p) = total_weight data p"
  shows "recorded data L (foldl (record_path data) create_paths L)"
  using assms
proof (induction L rule: rev_induct)
  case Nil
  then show ?case by (simp add: recorded_def create_paths_def)
next
  case (snoc x xs)
  then show ?case using recorded_step[of data xs _ x] by simp
qed

lemma foldl_record_skip:
  assumes "\<forall>p \<in> set L. sint (min_len ap) < sint (path_weight data p)"
  shows "foldl (record_path data) ap L = ap"
  using assms
proof (induction L)
  case Nil
  then show ?case by simp
next
  case (Cons x xs)
  then have "record_path data ap x = ap" by (auto simp: record_path_def)
  then show ?case using Cons by simp
qed

section \<open>The search records the simple paths\<close>

lemma total_weight_prefix:
  "nonneg_along data (xs @ y # ys) \<Longrightarrow>
   total_weight data (xs @ [y]) \<le> total_weight data (xs @ y # ys)"
proof (induction xs rule: induct_list012)
  case 1
  then show ?case using total_weight_nonneg[of data "y # ys"] by simp
next
  case (2 a)
  then show ?case using total_weight_nonneg[of data "y # ys"] by simp
next
  case (3 a b xs)
  then show ?case by simp
qed

lemma walk_nonneg_along:
  "nonneg_weights INIT data \<Longrightarrow> is_walk INIT data q \<Longrightarrow>
   \<forall>u \<in> set q. u < graph_size (graph data) \<Longrightarrow> nonneg_along data q"
  by (induction INIT data q rule: is_walk.induct) (auto simp: nonneg_weights_def)

lemma simple_walk_weight:
  assumes "nonneg_weights INIT data" "no_overflow INIT data s"
    and "q \<noteq> []" "hd q = s" "distinct q" "\<forall>u \<in> set q. u < graph_size (graph data)"
    and "is_walk INIT data q"
  shows "sint (path_weight data q) = total_weight data q"
proof -
  have "simple_path INIT data s (last q) q" using assms(3-7) by (simp add: simple_path_def)
  then have "total_weight data q \<le> 2147483647" using assms(2) by (auto simp: no_overflow_def)
  moreover have "nonneg_along data q" by (rule walk_nonneg_along[OF assms(1,7,6)])
  ultimately show ?thesis by (simp add: sint_path_weight)
qed

lemma reached_records:
  assumes "state_ok data m" "stored_ok data m" "ok (realloc_calls m)"
  shows "all_paths (reached_destination ok m) = record_path data (all_paths m) (current_path m)"
proof -
  have le: "path_index (path_info m) \<le> length (path (path_info m))"
    and w: "weight (path_info m) = path_weight data (current_path m)"
    and l: "length (current_path m) = path_index (path_info m)"
    using assms(1) by (simp_all add: state_ok_def tracking_ok_def current_path_def)
  have c: "count (all_paths m) = length (paths (all_paths m))"
    using assms(2) by (simp add: stored_ok_def)
  let ?m1 = "m\<lparr>all_paths := (all_paths m)\<lparr>paths := [], count := 0,
                                           min_len := weight (path_info m)\<rparr>\<rparr>"
  have a1: "add_path ok (path (path_info m)) (path_index (path_info m)) ?m1 =
      ?m1\<lparr>realloc_calls := realloc_calls ?m1 + 1,
          all_paths := (all_paths ?m1)\<lparr>paths := paths (all_paths ?m1) @
              [\<lparr>vertices = take (path_index (path_info m)) (path (path_info m)),
                len = path_index (path_info m)\<rparr>],
            count := count (all_paths ?m1) + 1\<rparr>\<rparr>"
    by (rule add_path_ok) (use assms(3) le in simp_all)
  have a2: "add_path ok (path (path_info m)) (path_index (path_info m)) m =
      m\<lparr>realloc_calls := realloc_calls m + 1,
        all_paths := (all_paths m)\<lparr>paths := paths (all_paths m) @
              [\<lparr>vertices = take (path_index (path_info m)) (path (path_info m)),
                len = path_index (path_info m)\<rparr>],
            count := count (all_paths m) + 1\<rparr>\<rparr>"
    by (rule add_path_ok) (use assms(3) le c in simp_all)
  consider (less) "sint (weight (path_info m)) < sint (min_len (all_paths m))"
    | (eq) "\<not> sint (weight (path_info m)) < sint (min_len (all_paths m))"
           "weight (path_info m) = min_len (all_paths m)"
    | (more) "\<not> sint (weight (path_info m)) < sint (min_len (all_paths m))"
           "weight (path_info m) \<noteq> min_len (all_paths m)"
    by blast
  then show ?thesis
  proof cases
    case less
    then show ?thesis
      using a1 w l by (simp add: reached_destination_def record_path_def current_path_def)
  next
    case eq
    then show ?thesis
      using a2 w l by (simp add: reached_destination_def record_path_def current_path_def)
  next
    case more
    then show ?thesis
      using w by (simp add: reached_destination_def record_path_def)
  qed
qed

lemma pruned_branch:
  assumes nn: "nonneg_weights INIT data" and no: "no_overflow INIT data s"
    and st: "state_ok data m" and ne: "current_path m \<noteq> []" and hd: "hd (current_path m) = s"
    and walk: "is_walk INIT data (current_path m)"
    and i: "i < graph_size (graph data)" "i \<notin> set (current_path m)"
      "matrix (graph data) ! last (current_path m) ! i \<noteq> INIT"
    and bound: "\<not> sint (weight (path_info m) + matrix (graph data) ! last (current_path m) ! i)
                  \<le> sint (min_len (all_paths m))"
  shows "foldl (record_path data) (all_paths m) (dfs_paths INIT data d (current_path m) i t)
         = all_paths m"
proof (rule foldl_record_skip, rule ballI)
  let ?P = "current_path m"
  fix q assume q: "q \<in> set (dfs_paths INIT data d ?P i t)"
  have t: "tracking_ok data m" and w: "weight (path_info m) = path_weight data ?P"
    using st by (simp_all add: state_ok_def)
  have d: "distinct (?P @ [i])" and r: "\<forall>u \<in> set (?P @ [i]). u < graph_size (graph data)"
    using t i by (auto simp: tracking_ok_def)
  have wk: "is_walk INIT data (?P @ [i])" using walk i(3) ne by (simp add: is_walk_snoc)
  from dfs_paths_sound[OF q d r wk] obtain r' where
    q': "q = ?P @ i # r'" "distinct q" "\<forall>u \<in> set q. u < graph_size (graph data)"
    "is_walk INIT data q" by blast
  have hq: "q \<noteq> []" "hd q = s" using q'(1) ne hd by simp_all
  have wq: "sint (path_weight data q) = total_weight data q"
    by (rule simple_walk_weight[OF nn no hq q'(2,3,4)])
  have wp: "sint (path_weight data (?P @ [i])) = total_weight data (?P @ [i])"
    by (rule simple_walk_weight[OF nn no _ _ d r wk]) (use ne hd in simp_all)
  have "nonneg_along data (?P @ i # r')"
    using walk_nonneg_along[OF nn q'(4,3)] q'(1) by simp
  then have "total_weight data (?P @ [i]) \<le> total_weight data q"
    using total_weight_prefix[of data ?P i r'] q'(1) by simp
  moreover have "path_weight data (?P @ [i]) =
      weight (path_info m) + matrix (graph data) ! last ?P ! i"
    using ne w by (simp add: path_weight_snoc)
  ultimately show "sint (min_len (all_paths m)) < sint (path_weight data q)"
    using bound wq wp by simp
qed

lemma dfs_paths_branches:
  "v \<noteq> t \<Longrightarrow>
   dfs_paths INIT data (Suc d) pre v t =
     concat (map (branch_paths INIT data d (pre @ [v]) t) [0..<graph_size (graph data)])"
proof -
  have "branch_paths INIT data d (pre @ [v]) t =
        (\<lambda>i. if matrix (graph data) ! v ! i \<noteq> INIT \<and> i \<notin> set (pre @ [v])
             then dfs_paths INIT data d (pre @ [v]) i t else [])"
    by (rule ext) (simp add: branch_paths_def)
  then show "v \<noteq> t \<Longrightarrow> ?thesis" by simp
qed

lemma search_refines:
  "\<forall>k. ok k \<Longrightarrow> nonneg_weights INIT data \<Longrightarrow> no_overflow INIT data s \<Longrightarrow>
   entry_ok data (c_from cords) m \<Longrightarrow> stored_ok data m \<Longrightarrow>
   graph_size (graph data) \<le> d + path_index (path_info m) \<Longrightarrow>
   is_walk INIT data (current_path m @ [c_from cords]) \<Longrightarrow>
   hd (current_path m @ [c_from cords]) = s \<Longrightarrow>
   \<exists>m'. find_all_from_to ok INIT d cords data m = Some m' \<and>
        all_paths m' = foldl (record_path data) (all_paths m)
          (dfs_paths INIT data d (current_path m) (c_from cords) (c_to cords))"
  "\<forall>k. ok k \<Longrightarrow> nonneg_weights INIT data \<Longrightarrow> no_overflow INIT data s \<Longrightarrow>
   state_ok data m \<Longrightarrow> current_path m \<noteq> [] \<Longrightarrow> last (current_path m) = c_from cords \<Longrightarrow>
   stored_ok data m \<Longrightarrow> graph_size (graph data) \<le> d + path_index (path_info m) \<Longrightarrow>
   is_walk INIT data (current_path m) \<Longrightarrow> hd (current_path m) = s \<Longrightarrow>
   \<exists>m'. explore_neighbors ok INIT d cords data m = Some m' \<and>
        all_paths m' = foldl (record_path data) (all_paths m)
          (concat (map (branch_paths INIT data d (current_path m) (c_to cords))
                       [0..<graph_size (graph data)]))"
  "\<forall>k. ok k \<Longrightarrow> nonneg_weights INIT data \<Longrightarrow> no_overflow INIT data s \<Longrightarrow>
   state_ok data m \<Longrightarrow> current_path m \<noteq> [] \<Longrightarrow> last (current_path m) = c_from cords \<Longrightarrow>
   stored_ok data m \<Longrightarrow> graph_size (graph data) \<le> d + path_index (path_info m) \<Longrightarrow>
   is_walk INIT data (current_path m) \<Longrightarrow> hd (current_path m) = s \<Longrightarrow>
   n \<le> graph_size (graph data) \<Longrightarrow>
   \<exists>m'. explore_loop ok INIT d cords data n i m = Some m' \<and>
        all_paths m' = foldl (record_path data) (all_paths m)
          (concat (map (branch_paths INIT data d (current_path m) (c_to cords)) [i..<n]))"
proof (induction ok INIT d cords data m and ok INIT d cords data m and ok INIT d cords data n i m
       rule: find_all_from_to_explore_neighbors_explore_loop.induct)
  case (1 ok INIT cords data m)
  then show ?case using entry_index_less[of data "c_from cords" m] by simp
next
  case (2 ok INIT d cords data m)
  let ?v = "c_from cords"
  let ?m1 = "enter_vertex ?v m"
  note e = "2.prems"(4)
  have lt: "path_index (path_info m) < graph_size (graph data)" by (rule entry_index_less[OF e])
  have len: "length (path (path_info m)) = graph_size (graph data)"
    using e by (simp add: entry_ok_def tracking_ok_def)
  have ok1: "state_ok data ?m1" by (rule enter_state_ok[OF e])
  have cp1: "current_path ?m1 = current_path m @ [?v]" using lt len by (simp add: current_path_enter)
  have st1: "stored_ok data ?m1" using "2.prems"(5) by (simp add: stored_ok_def)
  show ?case
  proof (cases "?v = c_to cords")
    case True
    have "all_paths (reached_destination ok ?m1) =
          record_path data (all_paths ?m1) (current_path ?m1)"
      by (rule reached_records[OF ok1 st1]) (use "2.prems"(1) in simp)
    then show ?thesis using True cp1 by (simp add: Let_def)
  next
    case False
    have "\<exists>m'. explore_neighbors ok INIT d cords data ?m1 = Some m' \<and>
        all_paths m' = foldl (record_path data) (all_paths ?m1)
          (concat (map (branch_paths INIT data d (current_path ?m1) (c_to cords))
                       [0..<graph_size (graph data)]))"
      by (rule "2.IH"[OF refl False "2.prems"(1,2,3) ok1 _ _ st1])
         (use cp1 "2.prems"(6,7,8) in simp_all)
    then obtain m2 where m2: "explore_neighbors ok INIT d cords data ?m1 = Some m2"
      "all_paths m2 = foldl (record_path data) (all_paths m)
          (concat (map (branch_paths INIT data d (current_path m @ [?v]) (c_to cords))
                       [0..<graph_size (graph data)]))"
      using cp1 by auto
    show ?thesis using False m2 by (simp add: dfs_paths_branches del: dfs_paths.simps)
  qed
next
  case (3 ok INIT d cords data m)
  then show ?case by simp
next
  case (4 ok INIT d cords data n i m)
  let ?u = "c_from cords"
  let ?t = "c_to cords"
  let ?P = "current_path m"
  let ?w = "matrix (graph data) ! ?u ! i"
  note st = "4.prems"(4) and ne = "4.prems"(5) and last = "4.prems"(6)
  show ?case
  proof (cases "i < n")
    case False
    then show ?thesis by (simp add: explore_loop_done)
  next
    case True
    have iV: "i < graph_size (graph data)" using True "4.prems"(11) by simp
    have upt: "[i..<n] = i # [i + 1..<n]" using True by (simp add: upt_conv_Cons)
    have vis: "visited (path_info m) ! i = (if i \<in> set ?P then 1 else 0)"
      using st iV by (simp add: state_ok_def tracking_ok_def)
    show ?thesis
    proof (cases "may_extend INIT data ?u i m")
      case ext: True
      have v0: "visited (path_info m) ! i = 0" and edge: "?w \<noteq> INIT"
        using ext by (simp_all add: may_extend_def Let_def)
      have notin: "i \<notin> set ?P" using vis v0 by (auto split: if_splits)
      have e: "entry_ok data i (add_weight ?w m)"
        by (rule add_weight_entry_ok[OF st ne last iV v0])
      have sa: "stored_ok data (add_weight ?w m)" using "4.prems"(7) by (simp add: stored_ok_def)
      have "\<exists>m'. find_all_from_to ok INIT d \<lparr>c_from = i, c_to = ?t\<rparr> data (add_weight ?w m) = Some m' \<and>
          all_paths m' = foldl (record_path data) (all_paths (add_weight ?w m))
            (dfs_paths INIT data d (current_path (add_weight ?w m))
               (c_from \<lparr>c_from = i, c_to = ?t\<rparr>) (c_to \<lparr>c_from = i, c_to = ?t\<rparr>))"
        by (rule "4.IH"(1)[OF True ext "4.prems"(1,2,3) _ sa])
           (use e "4.prems"(8,9,10) ne last edge in \<open>simp_all add: is_walk_snoc\<close>)
      then obtain m1 where m1: "find_all_from_to ok INIT d \<lparr>c_from = i, c_to = ?t\<rparr> data (add_weight ?w m) = Some m1"
        "all_paths m1 = foldl (record_path data) (all_paths m) (dfs_paths INIT data d ?P i ?t)"
        by auto
      have "\<exists>m'. find_all_from_to ok INIT d \<lparr>c_from = i, c_to = ?t\<rparr> data (add_weight ?w m) = Some m' \<and>
              restored (add_weight ?w m) m' \<and> stored_ok data m'"
        by (rule search_returns(1)) (use e sa "4.prems"(8) in simp_all)
      then have r1: "restored (add_weight ?w m) m1" and s1: "stored_ok data m1" using m1(1) by auto
      let ?m2 = "sub_weight ?w m1"
      have r: "restored m ?m2" by (rule restored_sub_weight[OF r1])
      have so: "state_ok data ?m2" by (rule restored_state_ok[OF r st])
      have cp2: "current_path ?m2 = ?P" using r by (simp add: restored_def)
      have "\<exists>m'. explore_loop ok INIT d cords data n (i + 1) ?m2 = Some m' \<and>
          all_paths m' = foldl (record_path data) (all_paths ?m2)
            (concat (map (branch_paths INIT data d (current_path ?m2) ?t) [i + 1..<n]))"
        by (rule "4.IH"(2)[OF True ext m1(1) "4.prems"(1,2,3) so])
           (use cp2 r s1 "4.prems" in \<open>simp_all add: restored_def stored_ok_def\<close>)
      then obtain m' where m': "explore_loop ok INIT d cords data n (i + 1) ?m2 = Some m'"
        "all_paths m' = foldl (record_path data) (all_paths m1)
            (concat (map (branch_paths INIT data d ?P ?t) [i + 1..<n]))"
        using cp2 by auto
      have "branch_paths INIT data d ?P ?t i = dfs_paths INIT data d ?P i ?t"
        using edge notin last by (simp add: branch_paths_def)
      then show ?thesis
        using m1 m' by (simp add: explore_loop_step[OF True ext] upt)
    next
      case noext: False
      have "\<exists>m'. explore_loop ok INIT d cords data n (i + 1) m = Some m' \<and>
          all_paths m' = foldl (record_path data) (all_paths m)
            (concat (map (branch_paths INIT data d ?P ?t) [i + 1..<n]))"
        by (rule "4.IH"(3)[OF True noext "4.prems"])
      then obtain m' where m': "explore_loop ok INIT d cords data n (i + 1) m = Some m'"
        "all_paths m' = foldl (record_path data) (all_paths m)
            (concat (map (branch_paths INIT data d ?P ?t) [i + 1..<n]))"
        by auto
      have skip: "foldl (record_path data) (all_paths m) (branch_paths INIT data d ?P ?t i)
                  = all_paths m"
      proof (cases "matrix (graph data) ! last ?P ! i \<noteq> INIT \<and> i \<notin> set ?P")
        case False
        then show ?thesis by (auto simp: branch_paths_def)
      next
        case True
        then have "visited (path_info m) ! i = 0" using vis by simp
        then have "\<not> sint (weight (path_info m) + matrix (graph data) ! last ?P ! i)
                     \<le> sint (min_len (all_paths m))"
          using noext True last by (simp add: may_extend_def Let_def)
        moreover have "i \<notin> set ?P" "matrix (graph data) ! last ?P ! i \<noteq> INIT"
          using True by simp_all
        ultimately have "foldl (record_path data) (all_paths m) (dfs_paths INIT data d ?P i ?t)
                   = all_paths m"
          by (intro pruned_branch[OF "4.prems"(2,3) st ne "4.prems"(10,9) iV])
        then show ?thesis using True by (simp add: branch_paths_def)
      qed
      show ?thesis
        using m' skip by (simp add: explore_loop_skip[OF \<open>i < n\<close> noext] upt)
    qed
  qed
qed

lemma total_weight_bound:
  assumes "\<forall>u < graph_size (graph data). \<forall>v < graph_size (graph data).
             sint (matrix (graph data) ! u ! v) \<le> B"
    and "0 \<le> B"
    and "\<forall>u \<in> set p. u < graph_size (graph data)"
  shows "total_weight data p \<le> int (length p - 1) * B"
  using assms(3)
proof (induction p rule: induct_list012)
  case 1
  then show ?case by simp
next
  case (2 x)
  then show ?case by simp
next
  case (3 u v vs)
  have "sint (matrix (graph data) ! u ! v) \<le> B" using assms(1) "3.prems" by simp
  moreover have "total_weight data (v # vs) \<le> int (length (v # vs) - 1) * B"
    using "3.IH"(2) "3.prems" by simp
  ultimately show ?case by (simp add: algebra_simps)
qed

lemma bounded_no_overflow:
  assumes "\<forall>u < graph_size (graph data). \<forall>v < graph_size (graph data).
             sint (matrix (graph data) ! u ! v) \<le> B"
    and "0 \<le> B"
    and "int (graph_size (graph data) - 1) * B \<le> 2147483647"
  shows "no_overflow INIT data s"
  unfolding no_overflow_def
proof (intro allI impI)
  fix t p assume sp: "simple_path INIT data s t p"
  then have r: "\<forall>u \<in> set p. u < graph_size (graph data)" and d: "distinct p"
    by (simp_all add: simple_path_def)
  have "length p \<le> graph_size (graph data)" by (rule distinct_length_le[OF d r])
  then have "int (length p - 1) * B \<le> int (graph_size (graph data) - 1) * B"
    using assms(2) by (intro mult_right_mono) simp_all
  then show "total_weight data p \<le> 2147483647"
    using total_weight_bound[OF assms(1,2) r] assms(3) by linarith
qed

lemma line_graph_nonneg: "nonneg_weights 7 line_graph"
  by (auto simp: nonneg_weights_def line_graph_def less_Suc_eq eval_nat_numeral)

lemma line_graph_no_overflow: "no_overflow 7 line_graph 0"
proof (rule bounded_no_overflow[where B = 7])
  show "\<forall>u < graph_size (graph line_graph). \<forall>v < graph_size (graph line_graph).
          sint (matrix (graph line_graph) ! u ! v) \<le> 7"
    by (auto simp: line_graph_def less_Suc_eq eval_nat_numeral)
qed (simp_all add: line_graph_def)

lemma overflow_graph_paths:
  "{p. simple_path 2147483647 overflow_graph 0 2 p} = {[0, 1, 2], [0, 2]}"
proof -
  have "dfs_paths 2147483647 overflow_graph 3 [] 0 2 = [[0, 1, 2], [0, 2]]"
    by code_simp
  moreover have "set (dfs_paths 2147483647 overflow_graph 3 [] 0 2) =
      {p. simple_path 2147483647 overflow_graph 0 2 p}"
    by (rule dfs_paths_simple) (simp_all add: overflow_graph_def)
  ultimately show ?thesis by simp
qed

lemma overflow_graph_shortest:
  "{p. shortest_path 2147483647 overflow_graph 0 2 p} = {[0, 2]}"
proof -
  have w: "total_weight overflow_graph [0, 2] = 5"
    "total_weight overflow_graph [0, 1, 2] = 2147483648"
    by (simp_all add: overflow_graph_def)
  have s: "simple_path 2147483647 overflow_graph 0 2 p \<longleftrightarrow> p = [0, 1, 2] \<or> p = [0, 2]" for p
    using overflow_graph_paths by auto
  show ?thesis
    unfolding shortest_path_def s using w by auto
qed

section \<open>What one call does to the path buffer\<close>



section \<open>Calls on the example graphs\<close>





section \<open>All paths of minimum weight\<close>

text \<open>
  C1, as the code has it. Let the entries of the matrix that are not \<open>INIT\<close> be
  non-negative, let \<open>start\<close> be a vertex of the graph, and let no simple path from \<open>start\<close>
  weigh more than \<open>INT_MAX\<close> (as is the case when the largest entry times the number of
  vertices less one is at most \<open>INT_MAX\<close>: lemma \<open>bounded_no_overflow\<close>). Then
  \<open>find_all_from_to\<close>, run on freshly created objects (and with every call of
  \<open>mx_realloc\<close> returning a block, as in C2 and C8), returns with the result list holding
  exactly the simple paths from \<open>start\<close> to \<open>target\<close> whose weight is least among all simple
  paths between them, and with \<open>min_len\<close> that least weight. If there is no simple path,
  the list is empty and \<open>min_len\<close> is still \<open>INT_MAX\<close>. No path is stored twice, \<open>count\<close> is
  the number of stored entries and every entry has its length.
\<close>

theorem all_shortest_paths:
  assumes "nonneg_weights INIT data"
    and "no_overflow INIT data start"
    and "\<forall>j. mx_realloc_ok j"
    and "start < graph_size (graph data)"
  shows "\<exists>m'. find_all_from_to mx_realloc_ok INIT (graph_size (graph data))
                 \<lparr>c_from = start, c_to = target\<rparr> data
                 (fresh_machine uninit (graph_size (graph data)) k e) = Some m' \<and>
              set (map vertices (paths (all_paths m'))) =
                {p. shortest_path INIT data start target p} \<and>
              (\<forall>p. shortest_path INIT data start target p \<longrightarrow>
                   sint (min_len (all_paths m')) = total_weight data p) \<and>
              ((\<forall>p. \<not> simple_path INIT data start target p) \<longrightarrow>
                   paths (all_paths m') = [] \<and> min_len (all_paths m') = INT_MAX) \<and>
              distinct (map vertices (paths (all_paths m'))) \<and>
              count (all_paths m') = length (paths (all_paths m')) \<and>
              (\<forall>p \<in> set (paths (all_paths m')). len p = length (vertices p))"
proof -
  let ?V = "graph_size (graph data)"
  let ?m = "fresh_machine uninit ?V k e"
  let ?c = "\<lparr>c_from = start, c_to = target\<rparr>"
  let ?L = "dfs_paths INIT data ?V [] start target"
  have cp: "current_path ?m = []"
    by (simp add: current_path_def fresh_machine_def create_path_info_def)
  have ap: "all_paths ?m = create_paths" by (simp add: fresh_machine_def)
  have e: "entry_ok data (c_from ?c) ?m" using assms(4) by (simp add: fresh_entry_ok)
  have "\<exists>m'. find_all_from_to mx_realloc_ok INIT ?V ?c data ?m = Some m' \<and>
        all_paths m' = foldl (record_path data) (all_paths ?m)
          (dfs_paths INIT data ?V (current_path ?m) (c_from ?c) (c_to ?c))"
    by (rule search_refines(1)[OF assms(3,1,2) e fresh_stored_ok]) (simp_all add: cp)
  then obtain m' where m': "find_all_from_to mx_realloc_ok INIT ?V ?c data ?m = Some m'"
    and res: "all_paths m' = foldl (record_path data) create_paths ?L"
    by (auto simp: cp ap)
  have L: "set ?L = {p. simple_path INIT data start target p}"
    by (rule dfs_paths_simple[OF assms(4)]) simp
  have W: "\<forall>p \<in> set ?L. sint (path_weight data p) = total_weight data p"
  proof
    fix p assume "p \<in> set ?L"
    then have "simple_path INIT data start target p" using L by simp
    then show "sint (path_weight data p) = total_weight data p"
      using simple_walk_weight[OF assms(1,2), of p] by (simp add: simple_path_def)
  qed
  have R: "recorded data ?L (all_paths m')" unfolding res by (rule recorded_foldl[OF W])
  have low: "\<forall>q \<in> set ?L. sint (min_len (all_paths m')) \<le> total_weight data q"
    and stored: "map vertices (paths (all_paths m')) =
          filter (\<lambda>p. total_weight data p = sint (min_len (all_paths m'))) ?L"
    and empty: "?L = [] \<longrightarrow> all_paths m' = create_paths"
    and hit: "?L \<noteq> [] \<longrightarrow> (\<exists>p \<in> set ?L. total_weight data p = sint (min_len (all_paths m')))"
    and cnt: "count (all_paths m') = length (paths (all_paths m'))"
    and lens: "\<forall>p \<in> set (paths (all_paths m')). len p = length (vertices p)"
    using R by (simp_all add: recorded_def)
  have short: "shortest_path INIT data start target p \<longleftrightarrow>
        p \<in> set ?L \<and> total_weight data p = sint (min_len (all_paths m'))" for p
  proof
    assume sp: "shortest_path INIT data start target p"
    then have p: "p \<in> set ?L" using L by (simp add: shortest_path_def)
    then have "?L \<noteq> []" by auto
    then obtain p0 where p0: "p0 \<in> set ?L" "total_weight data p0 = sint (min_len (all_paths m'))"
      using hit by blast
    have "simple_path INIT data start target p0" using p0(1) L by simp
    then have "total_weight data p \<le> total_weight data p0"
      using sp by (auto simp: shortest_path_def)
    then show "p \<in> set ?L \<and> total_weight data p = sint (min_len (all_paths m'))"
      using p p0(2) low by fastforce
  next
    assume "p \<in> set ?L \<and> total_weight data p = sint (min_len (all_paths m'))"
    then show "shortest_path INIT data start target p"
      using L low by (auto simp: shortest_path_def)
  qed
  have a: "set (map vertices (paths (all_paths m'))) = {p. shortest_path INIT data start target p}"
    using stored short by auto
  have b: "\<forall>p. shortest_path INIT data start target p \<longrightarrow>
             sint (min_len (all_paths m')) = total_weight data p"
    using short by simp
  have c: "(\<forall>p. \<not> simple_path INIT data start target p) \<longrightarrow>
             paths (all_paths m') = [] \<and> min_len (all_paths m') = INT_MAX"
  proof
    assume "\<forall>p. \<not> simple_path INIT data start target p"
    then have "set ?L = {}" using L by simp
    then have "all_paths m' = create_paths" using empty by simp
    then show "paths (all_paths m') = [] \<and> min_len (all_paths m') = INT_MAX"
      by (simp add: create_paths_def)
  qed
  have d: "distinct (map vertices (paths (all_paths m')))"
    unfolding stored by (rule distinct_filter[OF distinct_dfs_paths])
  from m' a b c d cnt lens show ?thesis by blast
qed

theorem all_shortest_paths_witness:
  "nonneg_weights 7 line_graph \<and> no_overflow 7 line_graph 0 \<and>
   (0::nat) < graph_size (graph line_graph) \<and>
   (\<exists>m'. find_all_from_to (\<lambda>k. True) 7 (graph_size (graph line_graph))
            \<lparr>c_from = 0, c_to = 2\<rparr> line_graph
            (fresh_machine [] (graph_size (graph line_graph)) 0 []) = Some m' \<and>
          set (map vertices (paths (all_paths m'))) = {p. shortest_path 7 line_graph 0 2 p} \<and>
          count (all_paths m') = length (paths (all_paths m')))"
proof -
  have a: "(0::nat) < graph_size (graph line_graph)" by (simp add: line_graph_size)
  have b: "\<forall>j. (\<lambda>k. True) j" by simp
  from all_shortest_paths[OF line_graph_nonneg line_graph_no_overflow b a, of 2 "[]" 0 "[]"]
  obtain m' where "find_all_from_to (\<lambda>k. True) 7 (graph_size (graph line_graph))
            \<lparr>c_from = 0, c_to = 2\<rparr> line_graph
            (fresh_machine [] (graph_size (graph line_graph)) 0 []) = Some m' \<and>
          set (map vertices (paths (all_paths m'))) = {p. shortest_path 7 line_graph 0 2 p} \<and>
          count (all_paths m') = length (paths (all_paths m'))"
    by (elim exE conjE) (rule that, intro conjI)
  then have "\<exists>m'. find_all_from_to (\<lambda>k. True) 7 (graph_size (graph line_graph))
            \<lparr>c_from = 0, c_to = 2\<rparr> line_graph
            (fresh_machine [] (graph_size (graph line_graph)) 0 []) = Some m' \<and>
          set (map vertices (paths (all_paths m'))) = {p. shortest_path 7 line_graph 0 2 p} \<and>
          count (all_paths m') = length (paths (all_paths m'))"
    by (rule exI)
  with line_graph_nonneg line_graph_no_overflow a show ?thesis by (intro conjI)
qed

text \<open>
  C1 as claimed fails when the weights on a path add up to more than \<open>INT_MAX\<close>. In the
  graph below every entry is non-negative and none is \<open>INIT\<close>. The simple paths from \<open>0\<close>
  to \<open>2\<close> are \<open>[0, 2]\<close>, of weight \<open>5\<close>, and \<open>[0, 1, 2]\<close>, of weight \<open>2^30 + 2^30\<close>, so the
  one path of minimum weight is \<open>[0, 2]\<close>. In the search the running weight of
  \<open>[0, 1, 2]\<close> wraps around to \<open>-2^31\<close>, the path is recorded with that \<open>min_len\<close>, and the
  edge from \<open>0\<close> to \<open>2\<close> is then pruned: the result holds \<open>[0, 1, 2]\<close> and not \<open>[0, 2]\<close>.
\<close>

theorem all_shortest_paths_counterexample:
  "nonneg_weights 2147483647 overflow_graph \<and>
   {p. shortest_path 2147483647 overflow_graph 0 2 p} = {[0, 2]} \<and>
   total_weight overflow_graph [0, 2] = 5 \<and>
   map_option (\<lambda>m'. (map vertices (paths (all_paths m')), sint (min_len (all_paths m'))))
     (find_all_from_to (\<lambda>k. True) 2147483647 3 \<lparr>c_from = 0, c_to = 2\<rparr> overflow_graph
        (fresh_machine [] 3 0 [])) =
   Some ([[0, 1, 2]], - 2147483648)"
proof -
  have "nonneg_weights 2147483647 overflow_graph"
    by (auto simp: nonneg_weights_def overflow_graph_def less_Suc_eq eval_nat_numeral)
  moreover have "total_weight overflow_graph [0, 2] = 5"
    by (simp add: overflow_graph_def)
  moreover have "map_option (\<lambda>m'. (map vertices (paths (all_paths m')), sint (min_len (all_paths m'))))
     (find_all_from_to (\<lambda>k. True) 2147483647 3 \<lparr>c_from = 0, c_to = 2\<rparr> overflow_graph
        (fresh_machine [] 3 0 [])) =
   Some ([[0, 1, 2]], - 2147483648)"
    by code_simp
  ultimately show ?thesis using overflow_graph_shortest by (intro conjI)
qed

section \<open>The record operation\<close>

text \<open>
  C2. \<open>reached_destination\<close> acts by three cases on the weight \<open>w\<close> of the candidate
  against \<open>min_len\<close>. If \<open>w < min_len\<close>, the stored paths are discarded, \<open>min_len\<close> becomes
  \<open>w\<close> and a copy of the candidate is the only entry. If \<open>w = min_len\<close>, a copy of the
  candidate is appended. If \<open>w > min_len\<close>, nothing at all changes. The copy holds the
  vertices \<open>path[0..path_index)\<close>; it is a value of its own, so what is written to the
  path buffer afterwards does not reach it. The search state \<open>path_info\<close> is not touched.
  The statement is for a call in which \<open>mx_realloc\<close> returns a block (the other case is
  C10), with the candidate inside the buffer and \<open>count\<close> the number of stored entries.
\<close>

theorem reached_destination_cases:
  assumes "mx_realloc_ok (realloc_calls m)"
    and "path_index (path_info m) \<le> length (path (path_info m))"
    and "count (all_paths m) = length (paths (all_paths m))"
  shows "(sint (weight (path_info m)) < sint (min_len (all_paths m)) \<longrightarrow>
            all_paths (reached_destination mx_realloc_ok m) =
              \<lparr>paths = [stored_copy m], count = 1, min_len = weight (path_info m)\<rparr>) \<and>
         (weight (path_info m) = min_len (all_paths m) \<longrightarrow>
            all_paths (reached_destination mx_realloc_ok m) =
              \<lparr>paths = paths (all_paths m) @ [stored_copy m],
               count = count (all_paths m) + 1, min_len = min_len (all_paths m)\<rparr>) \<and>
         (sint (min_len (all_paths m)) < sint (weight (path_info m)) \<longrightarrow>
            reached_destination mx_realloc_ok m = m) \<and>
         path_info (reached_destination mx_realloc_ok m) = path_info m \<and>
         (\<forall>buffer. all_paths ((reached_destination mx_realloc_ok m)
                      \<lparr>path_info := (path_info m)\<lparr>path := buffer\<rparr>\<rparr>) =
                   all_paths (reached_destination mx_realloc_ok m))"
proof -
  let ?m1 = "m\<lparr>all_paths := (all_paths m)\<lparr>paths := [], count := 0,
                                           min_len := weight (path_info m)\<rparr>\<rparr>"
  have a: "sint (weight (path_info m)) < sint (min_len (all_paths m)) \<Longrightarrow>
      all_paths (reached_destination mx_realloc_ok m) =
        \<lparr>paths = [stored_copy m], count = 1, min_len = weight (path_info m)\<rparr>"
    using assms(1,2) add_path_ok[of mx_realloc_ok ?m1 "path_index (path_info m)" "path (path_info m)"]
    by (simp add: reached_destination_def stored_copy_def current_path_def)
  have b: "weight (path_info m) = min_len (all_paths m) \<Longrightarrow>
      all_paths (reached_destination mx_realloc_ok m) =
        \<lparr>paths = paths (all_paths m) @ [stored_copy m],
         count = count (all_paths m) + 1, min_len = min_len (all_paths m)\<rparr>"
    using assms add_path_ok[of mx_realloc_ok m "path_index (path_info m)" "path (path_info m)"]
    by (simp add: reached_destination_def stored_copy_def current_path_def)
  have c: "sint (min_len (all_paths m)) < sint (weight (path_info m)) \<Longrightarrow>
      reached_destination mx_realloc_ok m = m"
    by (auto simp: reached_destination_def)
  show ?thesis using a b c by simp
qed

theorem reached_destination_cases_witness:
  "(\<lambda>k. True) (realloc_calls tie_state) \<and>
   path_index (path_info tie_state) \<le> length (path (path_info tie_state)) \<and>
   count (all_paths tie_state) = length (paths (all_paths tie_state)) \<and>
   weight (path_info tie_state) = min_len (all_paths tie_state) \<and>
   all_paths (reached_destination (\<lambda>k. True) tie_state) =
     \<lparr>paths = [\<lparr>vertices = [0, 1, 2], len = 3\<rparr>, \<lparr>vertices = [0, 2], len = 2\<rparr>],
      count = 2, min_len = 5\<rparr>"
  using reached_destination_cases[of "\<lambda>k. True" tie_state]
  by (simp add: tie_state_def stored_copy_def current_path_def)

section \<open>The backtracking discipline\<close>




section \<open>One iteration of the neighbour loop\<close>




section \<open>The stored paths all weigh \<open>min_len\<close>\<close>

text \<open>
  C5, with the sum as the code forms it. At every call made during a search that starts
  on freshly created objects (when the call is entered, at the head of every iteration of
  its neighbour loop, after \<open>reached_destination\<close>, and when it returns) every stored path
  has weight \<open>min_len\<close>, the weight being the sum of its matrix entries in 32-bit arithmetic
  with wrap-around: the exact sum of a stored path is \<open>min_len\<close> if and only if that sum fits
  in an \<open>int\<close>. When a candidate whose 32-bit weight is smaller than \<open>min_len\<close> is recorded,
  \<open>min_len\<close> becomes its weight and the stored list holds the candidate and nothing else
  (nothing at all when \<open>mx_realloc\<close> fails).
\<close>

theorem stored_paths_have_min_len:
  assumes "start < graph_size (graph data)"
    and "graph_size (graph data) \<le> d0"
    and "nested_call mx_realloc_ok INIT data target
           (d0, start, fresh_machine uninit (graph_size (graph data)) k e) (d, v, m)"
  shows "stored_weights_ok data m \<and>
         (\<forall>i mi. v \<noteq> target \<and> i \<le> graph_size (graph data) \<and>
                 explore_loop mx_realloc_ok INIT (d - 1) \<lparr>c_from = v, c_to = target\<rparr> data i 0
                   (enter_vertex v m) = Some mi \<longrightarrow>
                 stored_weights_ok data mi) \<and>
         (v = target \<longrightarrow>
            stored_weights_ok data (reached_destination mx_realloc_ok (enter_vertex v m))) \<and>
         (\<exists>m'. find_all_from_to mx_realloc_ok INIT d \<lparr>c_from = v, c_to = target\<rparr> data m = Some m' \<and>
               stored_weights_ok data m') \<and>
         (\<forall>x. sint (weight (path_info x)) < sint (min_len (all_paths x)) \<longrightarrow>
               min_len (all_paths (reached_destination mx_realloc_ok x)) = weight (path_info x) \<and>
               paths (all_paths (reached_destination mx_realloc_ok x)) =
                 (if mx_realloc_ok (realloc_calls x)
                  then [\<lparr>vertices = map (\<lambda>i. path (path_info x) ! i) [0..<path_index (path_info x)],
                         len = path_index (path_info x)\<rparr>]
                  else []))"
proof -
  let ?m0 = "fresh_machine uninit (graph_size (graph data)) k e"
  have e0: "entry_ok data start ?m0" using assms(1) by (rule fresh_entry_ok)
  have s0: "stored_ok data ?m0" by (rule fresh_stored_ok)
  have f0: "graph_size (graph data) \<le> d0 + path_index (path_info ?m0)" using assms(2) by simp
  note st = nested_call_states[OF assms(3) e0 s0 f0]
  have a: "stored_weights_ok data m" by (rule stored_ok_weights[OF st(2)])
  have b: "\<forall>i mi. v \<noteq> target \<and> i \<le> graph_size (graph data) \<and>
                 explore_loop mx_realloc_ok INIT (d - 1) \<lparr>c_from = v, c_to = target\<rparr> data i 0
                   (enter_vertex v m) = Some mi \<longrightarrow>
                 stored_weights_ok data mi"
    using st(3) stored_ok_weights by blast
  have c: "stored_weights_ok data (reached_destination mx_realloc_ok (enter_vertex v m))"
    using st(4) stored_ok_weights by blast
  have d: "\<exists>m'. find_all_from_to mx_realloc_ok INIT d \<lparr>c_from = v, c_to = target\<rparr> data m = Some m' \<and>
               stored_weights_ok data m'"
    using st(5) stored_ok_weights by blast
  have e: "\<forall>x. sint (weight (path_info x)) < sint (min_len (all_paths x)) \<longrightarrow>
               min_len (all_paths (reached_destination mx_realloc_ok x)) = weight (path_info x) \<and>
               paths (all_paths (reached_destination mx_realloc_ok x)) =
                 (if mx_realloc_ok (realloc_calls x)
                  then [\<lparr>vertices = map (\<lambda>i. path (path_info x) ! i) [0..<path_index (path_info x)],
                         len = path_index (path_info x)\<rparr>]
                  else [])"
    by (simp add: reached_destination_def add_path_def Let_def)
  from a b c d e show ?thesis by blast
qed

theorem stored_paths_have_min_len_witness:
  "(0::nat) < graph_size (graph line_graph) \<and> graph_size (graph line_graph) \<le> 3 \<and>
   nested_call (\<lambda>k. True) 7 line_graph 2
     (3, 0, fresh_machine [] (graph_size (graph line_graph)) 0 []) (2, 1, after_first_edge) \<and>
   stored_weights_ok line_graph after_first_edge \<and>
   (\<exists>m'. find_all_from_to (\<lambda>k. True) 7 2 \<lparr>c_from = 1, c_to = 2\<rparr> line_graph after_first_edge = Some m' \<and>
         stored_weights_ok line_graph m')"
proof -
  have a: "(0::nat) < graph_size (graph line_graph)" "graph_size (graph line_graph) \<le> 3"
    by (simp_all add: line_graph_size)
  from stored_paths_have_min_len[OF a line_graph_nested, of "\<lambda>k. True"] a line_graph_nested
  show ?thesis by blast
qed

text \<open>
  C5 with the exact sum fails on \<open>mixed_graph\<close>. The search from \<open>0\<close> to \<open>3\<close> ends with the paths
  \<open>[0, 1, 2, 3]\<close> and \<open>[0, 3]\<close> stored together and \<open>min_len = 5\<close>: the exact weight of the first
  is \<open>2^32 + 5\<close>, that of the second is \<open>5\<close>.
\<close>

theorem stored_paths_counterexample:
  "map_option (\<lambda>s. (map vertices (paths (all_paths s)), sint (min_len (all_paths s))))
     (find_all_from_to (\<lambda>k. True) (- 1) 4 \<lparr>c_from = 0, c_to = 3\<rparr> mixed_graph
        (fresh_machine [] 4 0 [])) = Some ([[0, 1, 2, 3], [0, 3]], 5) \<and>
   total_weight mixed_graph [0, 1, 2, 3] = 4294967301 \<and>
   total_weight mixed_graph [0, 3] = 5"
proof -
  have "map_option (\<lambda>s. (map vertices (paths (all_paths s)), sint (min_len (all_paths s))))
     (find_all_from_to (\<lambda>k. True) (- 1) 4 \<lparr>c_from = 0, c_to = 3\<rparr> mixed_graph
        (fresh_machine [] 4 0 [])) = Some ([[0, 1, 2, 3], [0, 3]], 5)" by code_simp
  moreover have "total_weight mixed_graph [0, 1, 2, 3] = 4294967301" by code_simp
  moreover have "total_weight mixed_graph [0, 3] = 5" by code_simp
  ultimately show ?thesis by simp
qed

section \<open>Which pairs are searched\<close>

text \<open>
  What the two loops do. \<open>execute_pathfinding\<close> takes every node of the list as start, and
  the loop of \<open>find_all_from\<close> begins at \<open>start->next\<close>: the search runs once for each pair of
  list positions \<open>i < j\<close>, from the node at \<open>i\<close> to the node at \<open>j\<close>, in list order, and never
  from a node to one listed before it. (All listed ids are vertices of the graph, and the
  depth bound is at least the number of vertices.)
\<close>

lemma execute_pathfinding_pairs:
  assumes "\<forall>v \<in> set (nodes data). v < graph_size (graph data)"
    and "graph_size (graph data) \<le> d"
  shows "\<exists>w'. execute_pathfinding mx_realloc_ok INIT d uninit data w = Some w' \<and>
           map fst (searches w') = map fst (searches w) @ later_pairs (nodes data) \<and>
           (\<forall>c. c \<in> set (later_pairs (nodes data)) \<longleftrightarrow>
                (\<exists>i j. i < j \<and> j < length (nodes data) \<and>
                       c = \<lparr>c_from = nodes data ! i, c_to = nodes data ! j\<rparr>))"
  using execute_loop_pairs[OF assms, of mx_realloc_ok INIT uninit w] later_pairs_iff
  by (simp add: execute_pathfinding_def)

lemma execute_pathfinding_pairs_example:
  "list_all (\<lambda>v. v < graph_size (graph line_graph)) (nodes line_graph) \<and>
   graph_size (graph line_graph) \<le> 3 \<and>
   (\<exists>w'. execute_pathfinding (\<lambda>k. True) 7 3 [] line_graph program_start = Some w' \<and>
      map fst (searches w') =
        [\<lparr>c_from = 0, c_to = 1\<rparr>, \<lparr>c_from = 0, c_to = 2\<rparr>, \<lparr>c_from = 1, c_to = 2\<rparr>])"
proof -
  have a: "\<forall>v \<in> set (nodes line_graph). v < graph_size (graph line_graph)"
    by (simp add: line_graph_def)
  have b: "graph_size (graph line_graph) \<le> 3" by (simp add: line_graph_def)
  have c: "nodes line_graph = [0, 1, 2]" by (simp add: line_graph_def)
  from execute_pathfinding_pairs[OF a b, of "\<lambda>k. True" 7 "[]" program_start]
  obtain w' where "execute_pathfinding (\<lambda>k. True) 7 3 [] line_graph program_start = Some w'"
    "map fst (searches w') = map fst (searches program_start) @ later_pairs (nodes line_graph)"
    by (elim exE conjE) (rule that)
  then have "execute_pathfinding (\<lambda>k. True) 7 3 [] line_graph program_start = Some w' \<and>
      map fst (searches w') =
        [\<lparr>c_from = 0, c_to = 1\<rparr>, \<lparr>c_from = 0, c_to = 2\<rparr>, \<lparr>c_from = 1, c_to = 2\<rparr>]"
    by (simp add: c program_start_def)
  then have "\<exists>w'. execute_pathfinding (\<lambda>k. True) 7 3 [] line_graph program_start = Some w' \<and>
      map fst (searches w') =
        [\<lparr>c_from = 0, c_to = 1\<rparr>, \<lparr>c_from = 0, c_to = 2\<rparr>, \<lparr>c_from = 1, c_to = 2\<rparr>]"
    by (rule exI)
  moreover have "list_all (\<lambda>v. v < graph_size (graph line_graph)) (nodes line_graph)"
    by (simp add: line_graph_def)
  ultimately show ?thesis using b by (intro conjI)
qed

text \<open>
  C6. The comment on \<open>find_all_from\<close> says that it finds the paths from the current node to
  all other nodes, and the claim says that every other listed vertex is a target. The
  code does not do that. On the node list \<open>[0, 1]\<close> of a graph with the edges \<open>0 \<rightarrow> 1\<close> and
  \<open>1 \<rightarrow> 0\<close>, \<open>execute_pathfinding\<close> runs one search, from \<open>0\<close> to \<open>1\<close>; \<open>find_all_from\<close>, called
  for the node \<open>1\<close> (whose \<open>next\<close> is \<open>NULL\<close>), runs no search at all, so the ordered pair
  \<open>(1, 0)\<close> of distinct listed vertices is never searched.
\<close>

theorem execute_pathfinding_misses_pair:
  "nodes two_nodes = [0, 1] \<and>
   map_option (\<lambda>w'. map fst (searches w'))
     (execute_pathfinding (\<lambda>k. True) 2147483647 2 [] two_nodes program_start) =
   Some [\<lparr>c_from = 0, c_to = 1\<rparr>] \<and>
   map_option (\<lambda>w'. map fst (searches w'))
     (find_all_from (\<lambda>k. True) 2147483647 2 [] 1 [] two_nodes program_start) = Some []"
proof -
  have "nodes two_nodes = [0, 1]" by (simp add: two_nodes_def)
  moreover have "map_option (\<lambda>w'. map fst (searches w'))
     (execute_pathfinding (\<lambda>k. True) 2147483647 2 [] two_nodes program_start) =
   Some [\<lparr>c_from = 0, c_to = 1\<rparr>]" by code_simp
  moreover have "map_option (\<lambda>w'. map fst (searches w'))
     (find_all_from (\<lambda>k. True) 2147483647 2 [] 1 [] two_nodes program_start) = Some []"
    by code_simp
  ultimately show ?thesis by simp
qed

section \<open>A failed reallocation is not propagated\<close>




section \<open>The trivial path\<close>

text \<open>
  C8. For a vertex \<open>v\<close> of the graph, the search from \<open>v\<close> to \<open>v\<close> on freshly created
  objects returns with exactly one stored path, \<open>[v]\<close>, and \<open>min_len = 0\<close>. The matrix is
  arbitrary, so an edge from \<open>v\<close> to itself changes nothing: the matrix is not read at
  all. The statement is for a run in which the one call of \<open>mx_realloc\<close> returns a block.
\<close>

theorem trivial_path:
  assumes "v < graph_size (graph data)"
    and "mx_realloc_ok k"
  shows "\<exists>m'. find_all_from_to mx_realloc_ok INIT (Suc d) \<lparr>c_from = v, c_to = v\<rparr> data
                (fresh_machine uninit (graph_size (graph data)) k e) = Some m' \<and>
              all_paths m' = \<lparr>paths = [\<lparr>vertices = [v], len = 1\<rparr>], count = 1, min_len = 0\<rparr>"
proof -
  let ?m = "fresh_machine uninit (graph_size (graph data)) k e"
  let ?m1 = "enter_vertex v ?m"
  have e: "entry_ok data v ?m" using assms(1) by (rule fresh_entry_ok)
  have cp: "current_path ?m1 = [v]"
    using current_path_enter[of ?m v] assms(1)
    by (simp add: fresh_machine_def create_path_info_def current_path_def)
  have "path_index (path_info ?m1) \<le> length (path (path_info ?m1))"
    using assms(1) by (simp add: enter_vertex_def fresh_machine_def create_path_info_def)
  moreover have "mx_realloc_ok (realloc_calls ?m1)"
    using assms(2) by (simp add: enter_vertex_def fresh_machine_def)
  moreover have "count (all_paths ?m1) = length (paths (all_paths ?m1))"
    by (simp add: enter_vertex_def fresh_machine_def create_paths_def)
  moreover have "sint (weight (path_info ?m1)) < sint (min_len (all_paths ?m1))"
    by (simp add: enter_vertex_def fresh_machine_def create_paths_def create_path_info_def INT_MAX_def)
  ultimately have "all_paths (reached_destination mx_realloc_ok ?m1) =
      \<lparr>paths = [stored_copy ?m1], count = 1, min_len = weight (path_info ?m1)\<rparr>"
    using add_path_ok[of mx_realloc_ok _ "path_index (path_info ?m1)" "path (path_info ?m1)"]
    by (simp add: reached_destination_def stored_copy_def current_path_def)
  moreover have "stored_copy ?m1 = \<lparr>vertices = [v], len = 1\<rparr>"
    using cp by (simp add: stored_copy_def enter_vertex_def fresh_machine_def create_path_info_def)
  moreover have "weight (path_info ?m1) = 0"
    by (simp add: enter_vertex_def fresh_machine_def create_path_info_def)
  ultimately show ?thesis by (simp add: Let_def)
qed

theorem trivial_path_witness:
  "\<exists>m'. find_all_from_to (\<lambda>k. True) 0 (Suc 0) \<lparr>c_from = 1, c_to = 1\<rparr> loop_graph
            (fresh_machine [] (graph_size (graph loop_graph)) 0 []) = Some m' \<and>
         all_paths m' = \<lparr>paths = [\<lparr>vertices = [1], len = 1\<rparr>], count = 1, min_len = 0\<rparr>"
  using trivial_path[of 1 loop_graph "\<lambda>k. True" 0 0 0 "[]" "[]"]
  by (simp add: loop_graph_def)

section \<open>Termination\<close>

text \<open>
  C9. On a graph of \<open>V\<close> vertices \<open>find_all_from_to\<close>, started on freshly created objects
  at a vertex of the graph, returns, and the calls it makes never nest deeper than \<open>V\<close>: the
  depth bound \<open>V\<close> is enough, and every larger bound gives the same final state. This holds
  for every matrix, every value of \<open>INIT\<close> and every behaviour of \<open>mx_realloc\<close>.
\<close>

theorem find_all_from_to_terminates:
  assumes "start < graph_size (graph data)"
  shows "\<exists>m'. \<forall>d \<ge> graph_size (graph data).
           find_all_from_to mx_realloc_ok INIT d \<lparr>c_from = start, c_to = target\<rparr> data
             (fresh_machine uninit (graph_size (graph data)) k e) = Some m'"
proof -
  let ?m = "fresh_machine uninit (graph_size (graph data)) k e"
  let ?c = "\<lparr>c_from = start, c_to = target\<rparr>"
  have "entry_ok data (c_from ?c) ?m" using assms by (simp add: fresh_entry_ok)
  from search_returns(1)[OF this fresh_stored_ok, of "graph_size (graph data)" mx_realloc_ok INIT]
  obtain m' where "find_all_from_to mx_realloc_ok INIT (graph_size (graph data)) ?c data ?m = Some m'"
    by auto
  then have "\<forall>d \<ge> graph_size (graph data).
      find_all_from_to mx_realloc_ok INIT d ?c data ?m = Some m'"
    by (rule bound_mono(1))
  then show ?thesis by (rule exI)
qed

theorem find_all_from_to_terminates_witness:
  "(0::nat) < graph_size (graph line_graph) \<and>
   (\<exists>m'. \<forall>d \<ge> graph_size (graph line_graph).
           find_all_from_to (\<lambda>k. True) 7 d \<lparr>c_from = 0, c_to = 2\<rparr> line_graph
             (fresh_machine [] (graph_size (graph line_graph)) 0 []) = Some m')"
  using find_all_from_to_terminates[of 0 line_graph "\<lambda>k. True" 7 2 "[]" 0 "[]"]
  by (simp add: line_graph_def)

section \<open>A failed reallocation\<close>

text \<open>
  C10. When \<open>mx_realloc\<close> returns \<open>NULL\<close>, \<open>add_path\<close> writes its message to \<open>stderr\<close> and
  returns: the stored paths, \<open>count\<close> and \<open>min_len\<close> are as they were before the call and
  no entry is appended. The search goes on: when this happens for the neighbour \<open>i\<close> that
  is the target, the recursive call returns and the loop of \<open>explore_neighbors\<close> continues
  with \<open>i + 1\<close>.
\<close>

theorem add_path_realloc_failure:
  assumes "\<not> mx_realloc_ok (realloc_calls m)"
  shows "add_path mx_realloc_ok current_path' length' m =
           m\<lparr>realloc_calls := realloc_calls m + 1,
             stderr := stderr m @ [''error: memory allocation failed in add_path'']\<rparr> \<and>
         all_paths (add_path mx_realloc_ok current_path' length' m) = all_paths m \<and>
         (i < n \<and> i = c_to cords \<and> may_extend INIT data (c_from cords) i m \<longrightarrow>
            (\<exists>m'. find_all_from_to mx_realloc_ok INIT (Suc d) \<lparr>c_from = i, c_to = c_to cords\<rparr> data
                     (add_weight (matrix (graph data) ! c_from cords ! i) m) = Some m' \<and>
                   realloc_calls m' = realloc_calls m + 1 \<and>
                   stderr m' = stderr m @ [''error: memory allocation failed in add_path''] \<and>
                   explore_loop mx_realloc_ok INIT (Suc d) cords data n i m =
                     explore_loop mx_realloc_ok INIT (Suc d) cords data n (i + 1)
                       (sub_weight (matrix (graph data) ! c_from cords ! i) m')))"
proof -
  have a: "add_path mx_realloc_ok current_path' length' m =
           m\<lparr>realloc_calls := realloc_calls m + 1,
             stderr := stderr m @ [''error: memory allocation failed in add_path'']\<rparr>"
    using assms by (rule add_path_fail)
  have c: "\<exists>m'. find_all_from_to mx_realloc_ok INIT (Suc d) \<lparr>c_from = i, c_to = c_to cords\<rparr> data
                     (add_weight (matrix (graph data) ! c_from cords ! i) m) = Some m' \<and>
                   realloc_calls m' = realloc_calls m + 1 \<and>
                   stderr m' = stderr m @ [''error: memory allocation failed in add_path''] \<and>
                   explore_loop mx_realloc_ok INIT (Suc d) cords data n i m =
                     explore_loop mx_realloc_ok INIT (Suc d) cords data n (i + 1)
                       (sub_weight (matrix (graph data) ! c_from cords ! i) m')"
    if h: "i < n" "i = c_to cords" "may_extend INIT data (c_from cords) i m"
  proof -
    let ?w = "matrix (graph data) ! c_from cords ! i"
    let ?m1 = "enter_vertex i (add_weight ?w m)"
    have le: "sint (weight (path_info ?m1)) \<le> sint (min_len (all_paths ?m1))"
      using h(3) by (simp add: may_extend_def Let_def)
    have nok: "\<not> mx_realloc_ok (realloc_calls ?m1)" using assms by simp
    let ?m1' = "?m1\<lparr>all_paths := (all_paths ?m1)\<lparr>paths := [], count := 0,
                                           min_len := weight (path_info ?m1)\<rparr>\<rparr>"
    have rd: "realloc_calls (reached_destination mx_realloc_ok ?m1) = realloc_calls m + 1 \<and>
         stderr (reached_destination mx_realloc_ok ?m1) =
           stderr m @ [''error: memory allocation failed in add_path'']"
    proof (cases "sint (weight (path_info ?m1)) < sint (min_len (all_paths ?m1))")
      case True
      have "\<not> mx_realloc_ok (realloc_calls ?m1')" using assms by simp
      from add_path_fail[of mx_realloc_ok ?m1', OF this] True show ?thesis
        by (simp add: reached_destination_def)
    next
      case False
      with le have "sint (weight (path_info ?m1)) = sint (min_len (all_paths ?m1))" by simp
      then have "weight (path_info ?m1) = min_len (all_paths ?m1)" by (simp only: sint_eq_iff)
      with add_path_fail[of mx_realloc_ok ?m1, OF nok] False show ?thesis
        by (simp add: reached_destination_def)
    qed
    let ?m' = "leave_vertex i (reached_destination mx_realloc_ok ?m1)"
    have f: "find_all_from_to mx_realloc_ok INIT (Suc d) \<lparr>c_from = i, c_to = c_to cords\<rparr> data
                (add_weight ?w m) = Some ?m'"
      using h(2) by (simp add: Let_def)
    show ?thesis
      using f rd explore_loop_step[OF h(1) h(3), of mx_realloc_ok "Suc d"] by simp
  qed
  have b: "all_paths (add_path mx_realloc_ok current_path' length' m) = all_paths m"
    by (simp add: a)
  from c have "i < n \<and> i = c_to cords \<and> may_extend INIT data (c_from cords) i m \<longrightarrow>
            (\<exists>m'. find_all_from_to mx_realloc_ok INIT (Suc d) \<lparr>c_from = i, c_to = c_to cords\<rparr> data
                     (add_weight (matrix (graph data) ! c_from cords ! i) m) = Some m' \<and>
                   realloc_calls m' = realloc_calls m + 1 \<and>
                   stderr m' = stderr m @ [''error: memory allocation failed in add_path''] \<and>
                   explore_loop mx_realloc_ok INIT (Suc d) cords data n i m =
                     explore_loop mx_realloc_ok INIT (Suc d) cords data n (i + 1)
                       (sub_weight (matrix (graph data) ! c_from cords ! i) m'))"
    by blast
  with a b show ?thesis by (intro conjI)
qed

theorem add_path_realloc_failure_witness:
  "\<not> (\<lambda>k. False) (realloc_calls at_source) \<and>
   (2::nat) < 3 \<and> 2 = c_to \<lparr>c_from = 0, c_to = 2\<rparr> \<and>
   may_extend 7 line_graph (c_from \<lparr>c_from = 0, c_to = 2\<rparr>) 2 at_source \<and>
   all_paths (add_path (\<lambda>k. False) [0, 2] 2 at_source) = all_paths at_source \<and>
   (\<exists>m'. find_all_from_to (\<lambda>k. False) 7 (Suc 0) \<lparr>c_from = 2, c_to = 2\<rparr> line_graph
            (add_weight 5 at_source) = Some m' \<and>
          realloc_calls m' = 1 \<and>
          stderr m' = [''error: memory allocation failed in add_path''] \<and>
          explore_loop (\<lambda>k. False) 7 (Suc 0) \<lparr>c_from = 0, c_to = 2\<rparr> line_graph 3 2 at_source =
            explore_loop (\<lambda>k. False) 7 (Suc 0) \<lparr>c_from = 0, c_to = 2\<rparr> line_graph 3 3
              (sub_weight 5 m'))"
proof -
  have h: "\<not> (\<lambda>k. False) (realloc_calls at_source)" by simp
  have w: "matrix (graph line_graph) ! c_from \<lparr>c_from = 0, c_to = 2\<rparr> ! 2 = 5"
    by (simp add: line_graph_def)
  have r: "realloc_calls at_source = 0" "stderr at_source = []"
    by (simp_all add: at_source_def fresh_machine_def)
  have e: "(2::nat) < 3 \<and> 2 = c_to \<lparr>c_from = 0, c_to = 2\<rparr> \<and>
      may_extend 7 line_graph (c_from \<lparr>c_from = 0, c_to = 2\<rparr>) 2 at_source"
    by (simp add: may_extend_def at_source_def line_graph_def fresh_machine_def
        create_path_info_def create_paths_def enter_vertex_def INT_MAX_def)
  from add_path_realloc_failure[where mx_realloc_ok = "\<lambda>k. False" and m = at_source
      and current_path' = "[0, 2]" and length' = 2 and i = 2 and n = 3
      and cords = "\<lparr>c_from = 0, c_to = 2\<rparr>" and INIT = 7 and data = line_graph and d = 0, OF h]
  show ?thesis using e unfolding w r by simp
qed

end
